theory Spec2Isabelle
  imports Main "HOL-Library.Sublist" "HOL-Library.Multiset" "HOL-Library.Extended_Nat"
begin

section \<open>Strings and numbers of the source language\<close>

text \<open>
  The program is TypeScript. Its strings are sequences of UTF-16 code units; the model
  uses \<^typ>\<open>string\<close>, reading a character \<open>c\<close> as the code unit \<open>of_char c\<close>. The model is
  therefore exact on strings whose code units are below 256 (ASCII and Latin-1), which is
  the range every literal and every pattern of the source lives in, except that the
  middle dot U+00B7 of the renderer is the single character \<open>CHR 0xB7\<close>.
  Numbers are IEEE 754 doubles. Every number that the program prints or compares (a
  line number, the number of the pull request, a count) is a non-negative integer or
  \<open>Infinity\<close> wherever the program obtains it; such a number is modelled as an
  \<^typ>\<open>enat\<close>, and the section on numbers gives the rounding of \<open>parseInt\<close> and the text that
  a template literal prints. Identifiers, which the program only compares for equality
  and adds a small ordinal to, are modelled as \<^typ>\<open>nat\<close>, which is exact below \<open>2^53\<close>.
\<close>

definition isWhiteSpace :: "char \<Rightarrow> bool" where
  \<comment> \<open>the class \<open>\s\<close>, also what \<open>trim\<close> strips: TAB, LF, VT, FF, CR, SP, NBSP\<close>
  "isWhiteSpace c =
     (c \<in> set [CHR 0x09, CHR 0x0A, CHR 0x0B, CHR 0x0C, CHR 0x0D, CHR 0x20, CHR 0xA0])"

definition isLineTerminator :: "char \<Rightarrow> bool" where
  \<comment> \<open>what \<open>.\<close> does not match: LF and CR\<close>
  "isLineTerminator c = (c \<in> set [CHR 0x0A, CHR 0x0D])"

definition isDigit :: "char \<Rightarrow> bool" where
  "isDigit c = (c \<in> set ''0123456789'')"

definition toLowerChar :: "char \<Rightarrow> char" where
  \<comment> \<open>\<open>toLowerCase\<close> on one code unit: A-Z, and the Latin-1 capitals but the times sign\<close>
  "toLowerChar c =
     (let n = of_char c :: nat
      in if (65 \<le> n \<and> n \<le> 90) \<or> (192 \<le> n \<and> n \<le> 222 \<and> n \<noteq> 215)
         then char_of (n + 32) else c)"

definition toLowerCase :: "string \<Rightarrow> string" where
  "toLowerCase s = map toLowerChar s"

definition canonicalize :: "char \<Rightarrow> char" where
  \<comment> \<open>the case folding of a regular expression with flag \<open>i\<close> (no flag \<open>u\<close>): \<open>toUpperCase\<close>
      on one code unit, a-z and the Latin-1 small letters but the division sign.
      (U+00B5 and U+00FF fold to code units above 255, which no string of the model holds,
      so they stand for themselves.)\<close>
  "canonicalize c =
     (let n = of_char c :: nat
      in if (97 \<le> n \<and> n \<le> 122) \<or> (224 \<le> n \<and> n \<le> 254 \<and> n \<noteq> 247)
         then char_of (n - 32) else c)"

fun str_includes :: "string \<Rightarrow> string \<Rightarrow> bool" where
  \<comment> \<open>\<open>s.includes(needle)\<close>: the needle starts at some position of \<open>s\<close>\<close>
  "str_includes [] needle = (needle = [])"
| "str_includes (c # s) needle = (prefix needle (c # s) \<or> str_includes s needle)"

definition trim :: "string \<Rightarrow> string" where
  "trim s = rev (dropWhile isWhiteSpace (rev (dropWhile isWhiteSpace s)))"

section \<open>Numbers\<close>

text \<open>
  A number of the program is a double. The integers among the doubles are the numbers
  \<open>m * 2^e\<close> with \<open>m < 2^53\<close> below \<open>2^1024\<close>; converting an integer to a double rounds it
  to the nearest of them, a tie going to the even \<open>m\<close>, and gives \<open>Infinity\<close> when the
  rounded value reaches \<open>2^1024\<close>.
\<close>

definition digitVal :: "char \<Rightarrow> nat" where
  "digitVal c = of_char c - 48"

definition digitsValue :: "string \<Rightarrow> nat" where
  \<comment> \<open>the integer that a string of decimal digits denotes\<close>
  "digitsValue s = foldl (\<lambda>acc c. 10 * acc + digitVal c) 0 s"

function exponentOf :: "nat \<Rightarrow> nat" where
  \<comment> \<open>the number of low bits that do not fit into the 53 bits of a double\<close>
  "exponentOf n = (if n < 2 ^ 53 then 0 else Suc (exponentOf (n div 2)))"
  by pat_completeness auto
termination
  by (relation "measure (\<lambda>n. n)") auto

declare exponentOf.simps [simp del]

definition toDouble :: "nat \<Rightarrow> enat" where
  \<comment> \<open>the double nearest to an integer, ties to even\<close>
  "toDouble n =
     (let e = exponentOf n;
          q = n div 2 ^ e;
          r = n mod 2 ^ e;
          m = (if 2 * r < 2 ^ e then q
               else if 2 ^ e < 2 * r then q + 1
               else if even q then q else q + 1);
          v = m * 2 ^ e
      in if 2 ^ 1024 \<le> v then \<infinity> else enat v)"

definition parseInt10 :: "string \<Rightarrow> enat" where
  \<comment> \<open>\<open>parseInt(s, 10)\<close> on a string of decimal digits, the only strings it is called on:
      the double nearest to the integer that the digits denote. (The language lets an
      implementation take the digits after the twentieth as zeros; the model rounds the
      exact value.)\<close>
  "parseInt10 s = toDouble (digitsValue s)"

text \<open>
  The text of a number in a template literal (\<open>Number::toString\<close>). An integer up to
  \<open>2^53\<close> prints all its digits. Above, the digits printed are the shortest decimal
  that converts back to the same double (the nearest to it when several of that length
  do), followed by zeros when the number is below \<open>10^21\<close>, and in exponent form from
  \<open>10^21\<close> on.
\<close>

definition digitChar :: "nat \<Rightarrow> char" where
  "digitChar d = ''0123456789'' ! d"

function showNat :: "nat \<Rightarrow> string" where
  \<comment> \<open>the decimal digits of an integer\<close>
  "showNat n = (if n < 10 then [digitChar n] else showNat (n div 10) @ [digitChar (n mod 10)])"
  by pat_completeness auto
termination
  by (relation "measure (\<lambda>n. n)") auto

declare showNat.simps [simp del]

definition shortestAt :: "nat \<Rightarrow> nat \<Rightarrow> nat option" where
  \<comment> \<open>a multiple of \<open>p\<close> that converts to the double \<open>x\<close>: only the two multiples around
      \<open>x\<close> can, and of two that do, the nearer one is taken, the even one on a tie\<close>
  "shortestAt x p =
     (let lo = (x div p) * p;
          hi = lo + p;
          okLo = (toDouble lo = enat x);
          okHi = (toDouble hi = enat x)
      in if okLo \<and> okHi
         then (if x - lo < hi - x then Some lo
               else if hi - x < x - lo then Some hi
               else if even (x div p) then Some lo else Some hi)
         else if okLo then Some lo
         else if okHi then Some hi
         else None)"

function shortestFrom :: "nat \<Rightarrow> nat \<Rightarrow> nat" where
  \<comment> \<open>the first hit among the multiples of \<open>10^j\<close>, \<open>10^(j-1)\<close>, ..., \<open>1\<close>\<close>
  "shortestFrom x j =
     (case shortestAt x (10 ^ j) of
        Some v \<Rightarrow> v
      | None \<Rightarrow> if j = 0 then x else shortestFrom x (j - 1))"
  by pat_completeness auto
termination
  by (relation "measure (\<lambda>(x, j). j)") auto

declare shortestFrom.simps [simp del]

definition shortest :: "nat \<Rightarrow> nat" where
  \<comment> \<open>the integer with the fewest significant digits that converts to the double \<open>x\<close>\<close>
  "shortest x = shortestFrom x (length (showNat x) - 1)"

definition exponential :: "nat \<Rightarrow> string" where
  \<comment> \<open>exponent form: the first significant digit, a point and the other significant
      digits if there are any, \<open>e+\<close> and the exponent\<close>
  "exponential v =
     (let digits = showNat v;
          significant = rev (dropWhile (\<lambda>c. c = CHR ''0'') (rev digits));
          mantissa = (if length significant \<le> 1 then significant
                      else hd significant # CHR ''.'' # tl significant)
      in mantissa @ ''e+'' @ showNat (length digits - 1))"

definition numberToString :: "enat \<Rightarrow> string" where
  "numberToString x =
     (case x of
        \<infinity> \<Rightarrow> ''Infinity''
      | enat n \<Rightarrow>
          if n \<le> 2 ^ 53 then showNat n
          else let v = shortest n
               in if v < 10 ^ 21 then showNat v else exponential v)"

section \<open>Regular expressions\<close>

text \<open>
  The extractor is written with four regular expressions, all with flag \<open>i\<close>. Each has
  one capturing group, which always takes part in a match, and every quantifier stands on
  a single character class. The model is a backtracking matcher for exactly this
  fragment: \<open>rmatch r s\<close> lists, in the order in which a backtracking engine tries them,
  the rests of \<open>s\<close> that remain after each way of matching \<open>r\<close> at the start of \<open>s\<close>; the
  first element is the match the engine takes.
\<close>

datatype cclass =
    Space     \<comment> \<open>\<open>\s\<close>\<close>
  | Digit     \<comment> \<open>\<open>\d\<close>\<close>
  | Dot       \<comment> \<open>\<open>.\<close>\<close>
  | AnyChar   \<comment> \<open>\<open>[\s\S]\<close>\<close>
  | Chr char  \<comment> \<open>one literal character\<close>

fun in_class :: "cclass \<Rightarrow> char \<Rightarrow> bool" where
  "in_class Space c = isWhiteSpace c"
| "in_class Digit c = isDigit c"
| "in_class Dot c = (\<not> isLineTerminator c)"
| "in_class AnyChar c = True"
| "in_class (Chr p) c = (canonicalize c = canonicalize p)"

datatype regex =
    Lit string                      \<comment> \<open>a run of literal characters\<close>
  | Greedy cclass nat "nat option"  \<comment> \<open>\<open>x{lo,hi}\<close>; \<open>x*\<close> is \<open>Greedy x 0 None\<close>, \<open>x+\<close> is \<open>Greedy x 1 None\<close>\<close>
  | LazyStar cclass                 \<comment> \<open>\<open>x*?\<close>\<close>
  | Seq regex regex
  | Alt regex regex                 \<comment> \<open>\<open>a|b\<close>, the left alternative first\<close>
  | Eps                             \<comment> \<open>the empty pattern\<close>
  | Eoi                             \<comment> \<open>\<open>$\<close> without flag \<open>m\<close>: the end of the input\<close>

fun lit :: "string \<Rightarrow> string \<Rightarrow> string list" where
  "lit [] s = [s]"
| "lit (p # ps) [] = []"
| "lit (p # ps) (c # s) = (if canonicalize c = canonicalize p then lit ps s else [])"

fun greedy :: "cclass \<Rightarrow> nat \<Rightarrow> nat option \<Rightarrow> string \<Rightarrow> string list" where
  \<comment> \<open>one more character first, if the upper bound allows it; then stopping here, if the
      lower bound is reached\<close>
  "greedy cl lo hi [] = (if lo = 0 then [[]] else [])"
| "greedy cl lo hi (c # s) =
     (if hi \<noteq> Some 0 \<and> in_class cl c
      then greedy cl (lo - 1) (map_option (\<lambda>h. h - 1) hi) s else [])
     @ (if lo = 0 then [c # s] else [])"

fun lazy :: "cclass \<Rightarrow> string \<Rightarrow> string list" where
  \<comment> \<open>stopping here first; then one more character\<close>
  "lazy cl [] = [[]]"
| "lazy cl (c # s) = (c # s) # (if in_class cl c then lazy cl s else [])"

fun rmatch :: "regex \<Rightarrow> string \<Rightarrow> string list" where
  "rmatch (Lit p) s = lit p s"
| "rmatch (Greedy cl lo hi) s = greedy cl lo hi s"
| "rmatch (LazyStar cl) s = lazy cl s"
| "rmatch (Seq r1 r2) s = concat (map (rmatch r2) (rmatch r1 s))"
| "rmatch (Alt r1 r2) s = rmatch r1 s @ rmatch r2 s"
| "rmatch Eps s = [s]"
| "rmatch Eoi s = (if s = [] then [s] else [])"

record pattern =
  before_group :: regex
  group1 :: regex
  after_group :: regex

definition match_at :: "pattern \<Rightarrow> string \<Rightarrow> (string \<times> string \<times> string) list" where
  \<comment> \<open>the matches that start at the first character of \<open>s\<close>: what remains when the group
      starts, when the group ends, and when the match ends\<close>
  "match_at p s =
     [(s1, s2, s3).
        s1 \<leftarrow> rmatch (before_group p) s,
        s2 \<leftarrow> rmatch (group1 p) s1,
        s3 \<leftarrow> rmatch (after_group p) s2]"

fun rsearch :: "pattern \<Rightarrow> string \<Rightarrow> (string \<times> string) option" where
  \<comment> \<open>the leftmost match in \<open>s\<close>: the text of group 1 and what follows the match; \<open>None\<close> is
      the \<open>null\<close> of \<open>match\<close> and \<open>exec\<close>\<close>
  "rsearch p [] =
     (case match_at p [] of
        [] \<Rightarrow> None
      | (s1, s2, s3) # _ \<Rightarrow> Some (take (length s1 - length s2) s1, s3))"
| "rsearch p (c # s) =
     (case match_at p (c # s) of
        [] \<Rightarrow> rsearch p s
      | (s1, s2, s3) # _ \<Rightarrow> Some (take (length s1 - length s2) s1, s3))"

subsection \<open>The four expressions of the extractor\<close>

definition promptBlockRegex :: pattern where
  "promptBlockRegex =
     \<lparr>before_group =
        Seq (Lit ''<details><summary>Prompt To Fix With AI</summary>'')
       (Seq (Greedy Space 0 None)
       (Seq (Greedy (Chr CHR 0x60) 3 (Some 5))
       (Seq (Lit ''markdown'')
            (Greedy Space 0 None)))),
      group1 = LazyStar AnyChar,
      after_group =
        Seq (Greedy (Chr CHR 0x60) 3 (Some 5))
       (Seq (Greedy Space 0 None)
            (Lit ''</details>''))\<rparr>"

definition pathRegex :: pattern where
  "pathRegex =
     \<lparr>before_group = Seq (Lit ''Path:'') (Greedy Space 0 None),
      group1 = Greedy Dot 1 None,
      after_group = Eps\<rparr>"

definition lineRegex :: pattern where
  "lineRegex =
     \<lparr>before_group = Seq (Lit ''Line:'') (Greedy Space 0 None),
      group1 = Greedy Digit 1 None,
      after_group = Alt (Seq (Lit '':'') (Greedy Digit 1 None)) Eps\<rparr>"

definition commentRegex :: pattern where
  "commentRegex =
     \<lparr>before_group = Seq (Lit ''Comment:'') (Greedy Space 0 None),
      group1 = LazyStar AnyChar,
      after_group = Alt (Lit ''How can I resolve'') Eoi\<rparr>"

section \<open>Data model\<close>

text \<open>
  The interfaces of the source. Field names carry a prefix (\<open>c_\<close> for a comment, \<open>r_\<close>
  for a review), since the two interfaces share names and \<open>id\<close> is a constant of HOL.
\<close>

record ReviewComment =
  c_id :: nat
  c_path :: string
  c_line :: "enat option"
  c_body :: string
  c_user :: string
  c_url :: string
  c_createdAt :: string
  c_isResolved :: bool

record Review =
  r_id :: nat
  r_body :: string
  r_user :: string
  r_state :: string
  r_url :: string
  r_submittedAt :: string

record AggregatedFeedback =
  prNumber :: enat
  prTitle :: string
  prUrl :: string
  openComments :: "ReviewComment list"
  resolvedComments :: "ReviewComment list"
  reviews :: "Review list"
  updatedAt :: string

section \<open>Noise filter\<close>

definition isIgnoredBotComment :: "string \<Rightarrow> bool" where
  "isIgnoredBotComment body =
     (let lowerBody = toLowerCase body
      in if str_includes lowerBody ''rate limit'' \<and> str_includes lowerBody ''coderabbit''
         then True else False)"

text \<open>
  The specification's wording, independent of the code: a body contains a term
  case-insensitively when some contiguous part of it equals the term up to letter case.
\<close>

definition contains_ignoring_case :: "string \<Rightarrow> string \<Rightarrow> bool" where
  "contains_ignoring_case body term_text =
     (\<exists>before part after. body = before @ part @ after \<and>
        map toLowerChar part = map toLowerChar term_text)"

section \<open>Facts about matching\<close>

lemma lit_length: "r \<in> set (lit p s) \<Longrightarrow> length r + length p = length s"
  by (induction p s rule: lit.induct) (auto split: if_splits)

lemma greedy_length: "r \<in> set (greedy cl lo hi s) \<Longrightarrow> length r \<le> length s"
proof (induction s arbitrary: lo hi)
  case Nil
  then show ?case by (auto split: if_splits)
next
  case (Cons c s)
  from Cons.prems consider
      "r \<in> set (greedy cl (lo - 1) (map_option (\<lambda>h. h - 1) hi) s)" | "r = c # s"
    by (auto split: if_splits)
  then show ?case
  proof cases
    case 1
    from Cons.IH[OF 1] show ?thesis by simp
  next
    case 2
    then show ?thesis by simp
  qed
qed

lemma lazy_length: "r \<in> set (lazy cl s) \<Longrightarrow> length r \<le> length s"
proof (induction s)
  case Nil
  then show ?case by simp
next
  case (Cons c s)
  from Cons.prems consider "r = c # s" | "r \<in> set (lazy cl s)"
    by (auto split: if_splits)
  then show ?case
  proof cases
    case 1
    then show ?thesis by simp
  next
    case 2
    from Cons.IH[OF 2] show ?thesis by simp
  qed
qed

lemma rmatch_length: "r \<in> set (rmatch re s) \<Longrightarrow> length r \<le> length s"
proof (induction re arbitrary: s r)
  case (Lit p)
  then show ?case using lit_length[of r p s] by simp
next
  case (Greedy cl lo hi)
  then show ?case using greedy_length by simp
next
  case (LazyStar cl)
  then show ?case using lazy_length by simp
next
  case (Seq r1 r2)
  from Seq.prems obtain t where t: "t \<in> set (rmatch r1 s)" and r: "r \<in> set (rmatch r2 t)"
    by auto
  from Seq.IH(1)[OF t] Seq.IH(2)[OF r] show ?case by simp
next
  case (Alt r1 r2)
  then show ?case by auto
next
  case Eps
  then show ?case by simp
next
  case Eoi
  then show ?case by (auto split: if_splits)
qed

lemma match_at_parts:
  assumes "(s1, s2, s3) \<in> set (match_at p s)"
  shows "s1 \<in> set (rmatch (before_group p) s)"
    and "s2 \<in> set (rmatch (group1 p) s1)"
    and "s3 \<in> set (rmatch (after_group p) s2)"
  using assms by (auto simp: match_at_def)

lemma match_at_lengths:
  assumes "(s1, s2, s3) \<in> set (match_at p s)"
  shows "length s3 \<le> length s2" and "length s2 \<le> length s1" and "length s1 \<le> length s"
  using match_at_parts[OF assms] by (auto dest: rmatch_length)

lemma rsearch_Some:
  assumes "rsearch p s = Some (captured, rest)"
  shows "\<exists>t s1 s2. suffix t s \<and> (s1, s2, rest) \<in> set (match_at p t)
            \<and> captured = take (length s1 - length s2) s1"
  using assms
proof (induction s)
  case Nil
  then obtain s1 s2 ms where "match_at p [] = (s1, s2, rest) # ms"
    and "captured = take (length s1 - length s2) s1"
    by (auto split: list.splits)
  then have "suffix [] [] \<and> (s1, s2, rest) \<in> set (match_at p [])
      \<and> captured = take (length s1 - length s2) s1" by simp
  then show ?case by blast
next
  case (Cons c s)
  show ?case
  proof (cases "match_at p (c # s)")
    case Nil
    with Cons.prems have "rsearch p s = Some (captured, rest)" by simp
    from Cons.IH[OF this] obtain t s1 s2 where "suffix t s"
      and "(s1, s2, rest) \<in> set (match_at p t)"
      and "captured = take (length s1 - length s2) s1" by blast
    then have "suffix t (c # s) \<and> (s1, s2, rest) \<in> set (match_at p t)
      \<and> captured = take (length s1 - length s2) s1" by (simp add: suffix_Cons)
    then show ?thesis by blast
  next
    case (Cons m ms)
    with Cons.prems obtain s1 s2 where "m = (s1, s2, rest)"
      and "captured = take (length s1 - length s2) s1"
      by (auto split: prod.splits)
    with Cons have "suffix (c # s) (c # s) \<and> (s1, s2, rest) \<in> set (match_at p (c # s))
      \<and> captured = take (length s1 - length s2) s1" by simp
    then show ?thesis by blast
  qed
qed


lemma prompt_before_shorter:
  assumes "s1 \<in> set (rmatch (before_group promptBlockRegex) s)"
  shows "length s1 < length s"
proof -
  from assms obtain t where t: "t \<in> set (lit ''<details><summary>Prompt To Fix With AI</summary>'' s)"
    and s1: "s1 \<in> set (rmatch (Seq (Greedy Space 0 None) (Seq (Greedy (Chr CHR 0x60) 3 (Some 5))
            (Seq (Lit ''markdown'') (Greedy Space 0 None)))) t)"
    by (auto simp: promptBlockRegex_def)
  from s1 have "length s1 \<le> length t" by (rule rmatch_length)
  moreover from lit_length[OF t] have "length t < length s" by simp
  ultimately show ?thesis by simp
qed

lemma rsearch_prompt_shorter:
  assumes "rsearch promptBlockRegex s = Some (captured, rest)"
  shows "length rest < length s"
proof -
  from rsearch_Some[OF assms] obtain t s1 s2 where suf: "suffix t s"
    and m: "(s1, s2, rest) \<in> set (match_at promptBlockRegex t)" by blast
  from match_at_lengths[OF m] have "length rest \<le> length s1" by simp
  moreover from match_at_parts(1)[OF m] have "length s1 < length t" by (rule prompt_before_shorter)
  moreover from suf have "length t \<le> length s" by (rule suffix_length_le)
  ultimately show ?thesis by simp
qed

section \<open>Structured-text extractor\<close>

definition parseBlock ::
  "nat \<Rightarrow> string \<Rightarrow> string \<Rightarrow> string \<Rightarrow> string \<Rightarrow> ReviewComment list \<Rightarrow> ReviewComment list" where
  \<comment> \<open>the body of the \<open>while\<close> loop of \<open>parseGreptileComments\<close>: the three fields of one
      block, and the push when the path and the comment matched\<close>
  "parseBlock commentId user url createdAt blockContent comments =
     (let pathMatch = rsearch pathRegex blockContent;
          lineMatch = rsearch lineRegex blockContent;
          commentMatch = rsearch commentRegex blockContent
      in case (pathMatch, commentMatch) of
           (Some (pathText, _), Some (commentText, _)) \<Rightarrow>
             comments @
               [\<lparr>c_id = commentId + length comments,
                 c_path = trim pathText,
                 c_line = (case lineMatch of
                             Some (digits, _) \<Rightarrow> Some (parseInt10 digits)
                           | None \<Rightarrow> None),
                 c_body = trim commentText,
                 c_user = user,
                 c_url = url,
                 c_createdAt = createdAt,
                 c_isResolved = False\<rparr>]
         | _ \<Rightarrow> comments)"

function parseLoop ::
  "nat \<Rightarrow> string \<Rightarrow> string \<Rightarrow> string \<Rightarrow> string \<Rightarrow> ReviewComment list \<Rightarrow> ReviewComment list" where
  \<comment> \<open>the \<open>while\<close> loop: \<open>remaining\<close> is the body from \<open>lastIndex\<close> on, which \<open>exec\<close> with
      flag \<open>g\<close> moves to the end of each match\<close>
  "parseLoop commentId user url createdAt remaining comments =
     (case rsearch promptBlockRegex remaining of
        None \<Rightarrow> comments
      | Some (blockContent, rest) \<Rightarrow>
          parseLoop commentId user url createdAt rest
            (parseBlock commentId user url createdAt blockContent comments))"
  by pat_completeness auto
termination
  by (relation "measure (\<lambda>(commentId, user, url, createdAt, remaining, comments). length remaining)")
     (auto dest: rsearch_prompt_shorter)

declare parseLoop.simps [simp del]

definition parseGreptileComments ::
  "nat \<Rightarrow> string \<Rightarrow> string \<Rightarrow> string \<Rightarrow> string \<Rightarrow> ReviewComment list" where
  "parseGreptileComments commentId body user url createdAt =
     parseLoop commentId user url createdAt body []"

text \<open>
  For stating what the extractor yields: the delimited blocks of a body, in the order
  of the scan, each given by its inner text; and the three fields of one block.
\<close>

function blocks :: "string \<Rightarrow> string list" where
  "blocks s =
     (case rsearch promptBlockRegex s of
        None \<Rightarrow> []
      | Some (blockContent, rest) \<Rightarrow> blockContent # blocks rest)"
  by pat_completeness auto
termination
  by (relation "measure length") (auto dest: rsearch_prompt_shorter)

declare blocks.simps [simp del]

definition blockFields :: "string \<Rightarrow> (string \<times> enat option \<times> string) option" where
  "blockFields blockContent =
     (case (rsearch pathRegex blockContent, rsearch commentRegex blockContent) of
        (Some (pathText, _), Some (commentText, _)) \<Rightarrow>
          Some (trim pathText,
                map_option (\<lambda>(digits, _). parseInt10 digits) (rsearch lineRegex blockContent),
                trim commentText)
      | _ \<Rightarrow> None)"

section \<open>Bot comments among the general comments of the pull request\<close>

record IssueComment =
  ic_id :: nat
  ic_login :: "string option"   \<comment> \<open>\<open>comment.user?.login\<close>\<close>
  ic_body :: "string option"
  ic_html_url :: string
  ic_created_at :: string

definition loginOrUnknown :: "string option \<Rightarrow> string" where
  \<comment> \<open>\<open>comment.user?.login || 'unknown'\<close>: a missing or empty login is \<open>unknown\<close>\<close>
  "loginOrUnknown login = (case login of None \<Rightarrow> ''unknown'' | Some l \<Rightarrow> if l = [] then ''unknown'' else l)"

fun fetchGreptileLoop :: "IssueComment list \<Rightarrow> ReviewComment list \<Rightarrow> ReviewComment list" where
  "fetchGreptileLoop [] greptileComments = greptileComments"
| "fetchGreptileLoop (comment # issueComments) greptileComments =
     (let user = loginOrUnknown (ic_login comment)
      in case ic_body comment of
           Some body \<Rightarrow>
             if user = ''greptile-apps[bot]'' \<and> str_includes body ''Prompt To Fix With AI''
             then fetchGreptileLoop issueComments
                    (greptileComments @
                       parseGreptileComments (ic_id comment) body user
                         (ic_html_url comment) (ic_created_at comment))
             else fetchGreptileLoop issueComments greptileComments
         | None \<Rightarrow> fetchGreptileLoop issueComments greptileComments)"

definition fetchGreptileCommentsFromIssueComments :: "IssueComment list \<Rightarrow> ReviewComment list" where
  \<comment> \<open>on the list that the call to \<open>issues.listComments\<close> returned\<close>
  "fetchGreptileCommentsFromIssueComments issueComments = fetchGreptileLoop issueComments []"

definition extracted ::
  "nat \<Rightarrow> string \<Rightarrow> string \<Rightarrow> string \<Rightarrow> nat \<times> string \<times> enat option \<times> string \<Rightarrow> ReviewComment" where
  \<comment> \<open>the Comment of the accepted block number \<open>ordinal\<close> (from 0) of one source comment\<close>
  "extracted commentId user url createdAt entry =
     (case entry of (ordinal, pathText, lineNo, commentText) \<Rightarrow>
        \<lparr>c_id = commentId + ordinal,
         c_path = pathText,
         c_line = lineNo,
         c_body = commentText,
         c_user = user,
         c_url = url,
         c_createdAt = createdAt,
         c_isResolved = False\<rparr>)"

definition extractionAttempted :: "IssueComment \<Rightarrow> bool" where
  \<comment> \<open>the author is exactly the bot, and the body contains the phrase as written\<close>
  "extractionAttempted comment =
     (ic_login comment = Some ''greptile-apps[bot]'' \<and>
      (\<exists>before after. ic_body comment = Some (before @ ''Prompt To Fix With AI'' @ after)))"





section \<open>Inline review comments and their resolution status\<close>

record RawReviewComment =
  rc_id :: nat
  rc_path :: string
  rc_line :: "enat option"
  rc_original_line :: "enat option"
  rc_body :: string
  rc_login :: "string option"   \<comment> \<open>\<open>comment.user?.login\<close>\<close>
  rc_html_url :: string
  rc_created_at :: string

definition truthyNumber :: "enat option \<Rightarrow> enat option" where
  \<comment> \<open>a number as the left operand of \<open>||\<close>: \<open>null\<close>, \<open>undefined\<close> and 0 give way\<close>
  "truthyNumber n = (case n of None \<Rightarrow> None | Some k \<Rightarrow> if k = 0 then None else Some k)"

definition fetchReviewComments :: "RawReviewComment list \<Rightarrow> ReviewComment list" where
  \<comment> \<open>on the list that the call to \<open>pulls.listReviewComments\<close> returned\<close>
  "fetchReviewComments reviewComments =
     map (\<lambda>comment.
            \<lparr>c_id = rc_id comment,
             c_path = rc_path comment,
             c_line = (case truthyNumber (rc_line comment) of
                         Some k \<Rightarrow> Some k
                       | None \<Rightarrow> truthyNumber (rc_original_line comment)),
             c_body = rc_body comment,
             c_user = loginOrUnknown (rc_login comment),
             c_url = rc_html_url comment,
             c_createdAt = rc_created_at comment,
             c_isResolved = False\<rparr>) reviewComments"

record ReviewThread =
  t_isResolved :: bool
  t_commentIds :: "nat option list"  \<comment> \<open>\<open>databaseId\<close> of \<open>thread.comments.nodes\<close>; it may be \<open>null\<close>\<close>

datatype log_entry = Info string | Warning string | Failed string
  \<comment> \<open>\<open>core.info\<close>, \<open>core.warning\<close>, \<open>core.setFailed\<close>\<close>

fun resolvedThreadIds :: "ReviewThread list \<Rightarrow> nat option list" where
  "resolvedThreadIds [] = []"
| "resolvedThreadIds (thread # threads) =
     (if t_isResolved thread \<and> length (t_commentIds thread) > 0
      then hd (t_commentIds thread) # resolvedThreadIds threads
      else resolvedThreadIds threads)"

definition fetchResolvedStatus ::
  "string + ReviewThread list \<Rightarrow> ReviewComment list \<Rightarrow> log_entry list \<times> ReviewComment list" where
  \<comment> \<open>\<open>response\<close> is what the \<open>try\<close> block gets from the GraphQL query: the threads, or
      (\<open>Inl\<close>) the text of whatever was thrown inside the block. The result is what was
      logged, and the comments returned.\<close>
  "fetchResolvedStatus response comments =
     (case response of
        Inr threads \<Rightarrow>
          ([], map (\<lambda>comment.
                      comment\<lparr>c_isResolved :=
                        Some (c_id comment) \<in> set (resolvedThreadIds threads)\<rparr>) comments)
      | Inl error \<Rightarrow>
          ([Warning (''Could not fetch resolved status via GraphQL: '' @ error)], comments))"

text \<open>
  The specification's wording for the reconciler: an id is the anchor of a resolved
  thread when some thread is tagged resolved and its first comment has this id.
\<close>

definition anchorOfResolvedThread :: "ReviewThread list \<Rightarrow> nat \<Rightarrow> bool" where
  "anchorOfResolvedThread threads i =
     (\<exists>thread \<in> set threads. t_isResolved thread \<and>
        (\<exists>others. t_commentIds thread = Some i # others))"

section \<open>Aggregation\<close>

definition mergedComments ::
  "RawReviewComment list \<Rightarrow> string + ReviewThread list \<Rightarrow> IssueComment list \<Rightarrow> ReviewComment list" where
  \<comment> \<open>\<open>run\<close>, from fetching the review data to merging the bot comments\<close>
  "mergedComments reviewComments response issueComments =
     (let comments = fetchReviewComments reviewComments;
          comments = snd (fetchResolvedStatus response comments);
          greptileComments = fetchGreptileCommentsFromIssueComments issueComments
      in comments @ greptileComments)"

definition filteredComments :: "ReviewComment list \<Rightarrow> ReviewComment list" where
  "filteredComments comments = filter (\<lambda>c. \<not> isIgnoredBotComment (c_body c)) comments"

definition aggregate ::
  "enat \<Rightarrow> string \<Rightarrow> string \<Rightarrow> string \<Rightarrow> ReviewComment list \<Rightarrow> Review list \<Rightarrow> AggregatedFeedback" where
  \<comment> \<open>\<open>run\<close>, from the noise filter to the feedback object; \<open>now\<close> is the time stamp that
      \<open>new Date().toISOString()\<close> gives\<close>
  "aggregate number title html_url now merged fetchedReviews =
     (let comments = filteredComments merged;
          filteredReviews = filter (\<lambda>r. \<not> isIgnoredBotComment (r_body r)) fetchedReviews;
          openOnes = filter (\<lambda>c. \<not> c_isResolved c) comments;
          resolvedOnes = filter (\<lambda>c. c_isResolved c) comments
      in \<lparr>prNumber = number,
          prTitle = title,
          prUrl = html_url,
          openComments = openOnes,
          resolvedComments = resolvedOnes,
          reviews = filteredReviews,
          updatedAt = now\<rparr>)"

section \<open>Grouping by file\<close>

text \<open>
  \<open>groupByFile\<close> builds a plain object whose keys are paths. The model of such an object
  is the list of its own properties in the order of their creation. Two rules of the
  language show through it. Reading a key that the object does not own finds the
  properties of \<open>Object.prototype\<close>; and \<open>Object.keys\<close> and \<open>Object.entries\<close> list the keys
  that are array indices (canonical decimal numbers up to \<open>2^32 - 2\<close>) first, in
  ascending numeric order, and the other keys after them, in the order of creation.
\<close>

type_synonym 'v js_object = "(string \<times> 'v) list"

datatype js_error = TypeError string

definition objectPrototypeKeys :: "string list" where
  "objectPrototypeKeys =
     [''constructor'', ''__defineGetter__'', ''__defineSetter__'', ''hasOwnProperty'',
      ''__lookupGetter__'', ''__lookupSetter__'', ''isPrototypeOf'', ''propertyIsEnumerable'',
      ''toString'', ''valueOf'', ''__proto__'', ''toLocaleString'']"

definition isArrayIndex :: "string \<Rightarrow> bool" where
  "isArrayIndex k =
     (k \<noteq> [] \<and> list_all isDigit k \<and> (k = ''0'' \<or> hd k \<noteq> CHR ''0'') \<and> digitsValue k \<le> 4294967294)"

definition Object_entries :: "'v js_object \<Rightarrow> (string \<times> 'v) list" where
  "Object_entries obj =
     sort_key (\<lambda>(k, v). digitsValue k) (filter (\<lambda>(k, v). isArrayIndex k) obj)
     @ filter (\<lambda>(k, v). \<not> isArrayIndex k) obj"

datatype 'v slot =
    Own 'v        \<comment> \<open>a property of the object itself\<close>
  | Inherited     \<comment> \<open>a property of \<open>Object.prototype\<close>: a function or an object, so truthy\<close>
  | Undefined

definition getProperty :: "'v js_object \<Rightarrow> string \<Rightarrow> 'v slot" where
  "getProperty obj k =
     (case map_of obj k of
        Some v \<Rightarrow> Own v
      | None \<Rightarrow> if k \<in> set objectPrototypeKeys then Inherited else Undefined)"

definition groupKey :: "ReviewComment \<Rightarrow> string" where
  \<comment> \<open>\<open>comment.path || 'general'\<close>\<close>
  "groupKey comment = (if c_path comment = [] then ''general'' else c_path comment)"

fun groupLoop ::
  "ReviewComment list \<Rightarrow> ReviewComment list js_object \<Rightarrow> js_error + ReviewComment list js_object" where
  "groupLoop [] groups = Inr groups"
| "groupLoop (comment # comments) groups =
     (let path = groupKey comment
      in case getProperty groups path of
           Undefined \<Rightarrow> groupLoop comments (groups @ [(path, [comment])])
         | Own members \<Rightarrow>
             groupLoop comments
               (map (\<lambda>(k, v). if k = path then (k, v @ [comment]) else (k, v)) groups)
         | Inherited \<Rightarrow> Inl (TypeError ''groups[path].push is not a function''))"

definition lineOrZero :: "ReviewComment \<Rightarrow> enat" where
  \<comment> \<open>\<open>a.line || 0\<close>\<close>
  "lineOrZero comment = (case c_line comment of None \<Rightarrow> 0 | Some n \<Rightarrow> n)"

definition groupByFile :: "ReviewComment list \<Rightarrow> js_error + ReviewComment list js_object" where
  \<comment> \<open>the sort of an array is stable, and the comparator is the difference of the keys,
      so each group is sorted by insertion on \<open>lineOrZero\<close>\<close>
  "groupByFile comments =
     (case groupLoop comments [] of
        Inl e \<Rightarrow> Inl e
      | Inr groups \<Rightarrow> Inr (map (\<lambda>(k, v). (k, sort_key lineOrZero v)) groups))"

text \<open>
  For stating the order of the groups: the distinct keys of a list in the order of their
  first occurrence, and the order in which an object lists a set of created keys.
\<close>

fun firstSeen :: "string list \<Rightarrow> string list" where
  "firstSeen [] = []"
| "firstSeen (k # ks) = k # filter (\<lambda>x. x \<noteq> k) (firstSeen ks)"

definition keyOrder :: "string list \<Rightarrow> string list" where
  "keyOrder ks = sort_key digitsValue (filter isArrayIndex ks) @ filter (\<lambda>k. \<not> isArrayIndex k) ks"

definition membersOf :: "ReviewComment list js_object \<Rightarrow> ReviewComment list \<Rightarrow> string \<Rightarrow> ReviewComment list" where
  \<comment> \<open>the group of key \<open>k\<close> after the comments \<open>cs\<close> were added to the object \<open>g\<close>\<close>
  "membersOf g cs k =
     (case map_of g k of None \<Rightarrow> [] | Some v \<Rightarrow> v) @ filter (\<lambda>c. groupKey c = k) cs"

section \<open>Renderer\<close>

fun splitOn :: "char \<Rightarrow> string \<Rightarrow> string list" where
  \<comment> \<open>\<open>s.split(sep)\<close> for a separator of one character: never empty\<close>
  "splitOn sep [] = [[]]"
| "splitOn sep (c # s) =
     (if c = sep then [] # splitOn sep s
      else case splitOn sep s of
             [] \<Rightarrow> [[c]]
           | piece # pieces \<Rightarrow> (c # piece) # pieces)"

fun join :: "string \<Rightarrow> string list \<Rightarrow> string" where
  \<comment> \<open>\<open>lines.join(sep)\<close>\<close>
  "join sep [] = []"
| "join sep [l] = l"
| "join sep (l # m # ls) = l @ sep @ join sep (m # ls)"

fun replaceFirst :: "char \<Rightarrow> char \<Rightarrow> string \<Rightarrow> string" where
  \<comment> \<open>\<open>s.replace(a, b)\<close> for strings of one character: the first occurrence only\<close>
  "replaceFirst a b [] = []"
| "replaceFirst a b (c # s) = (if c = a then b # s else c # replaceFirst a b s)"

definition newline :: char where
  "newline = CHR 0x0A"

definition middleDot :: string where
  \<comment> \<open>the separator U+00B7 of the checklist items\<close>
  "middleDot = [CHR 0xB7]"

definition headerLines :: "AggregatedFeedback \<Rightarrow> string list" where
  "headerLines feedback =
     [''# PR #'' @ numberToString (prNumber feedback) @ '' Review Feedback'',
      '''',
      ''> **For AI coding assistants:** Fix all unchecked items below. Each item includes'',
      ''> the file path, line number, reviewer, and their feedback.'',
      ''>'',
      ''> **PR:** ['' @ prTitle feedback @ '']('' @ prUrl feedback @ '')'',
      ''> **Last updated:** '' @ updatedAt feedback,
      '''']"

definition statusLines :: "AggregatedFeedback \<Rightarrow> bool \<Rightarrow> string list" where
  \<comment> \<open>from the two counts to the rule under the status: each \<open>push\<close> adds one element\<close>
  "statusLines feedback includeResolved =
     (let openCount = length (openComments feedback);
          resolvedCount = length (resolvedComments feedback)
      in [''**Status:** '' @ numberToString (enat openCount) @ '' open issue'' @ (if openCount \<noteq> 1 then ''s'' else '''')]
         @ (if includeResolved \<and> resolvedCount > 0
            then ['' | '' @ numberToString (enat resolvedCount) @ '' resolved''] else [])
         @ ['''', ''---'', ''''])"

definition commentLines :: "ReviewComment \<Rightarrow> string list" where
  \<comment> \<open>one checklist item of an open comment; a line that is absent or 0 reads \<open>General\<close>\<close>
  "commentLines comment =
     (let lineInfo = (case truthyNumber (c_line comment) of
                        Some n \<Rightarrow> ''Line '' @ numberToString n
                      | None \<Rightarrow> ''General'')
      in [''- [ ] **'' @ lineInfo @ ''** '' @ middleDot @ '' @'' @ c_user comment, '''']
         @ map (\<lambda>bodyLine. ''  > '' @ bodyLine) (splitOn newline (c_body comment))
         @ [''''])"

definition fileLines :: "string \<times> ReviewComment list \<Rightarrow> string list" where
  "fileLines entry =
     (case entry of (filePath, comments) \<Rightarrow>
        [''### `'' @ filePath @ ''`'', ''''] @ concat (map commentLines comments))"

definition noOpenIssuesLines :: "string list" where
  "noOpenIssuesLines =
     [''## No Open Issues'', '''', ''All review comments have been resolved!'', '''']"

definition issuesLines :: "AggregatedFeedback \<Rightarrow> js_error + string list" where
  "issuesLines feedback =
     (if length (openComments feedback) > 0
      then case groupByFile (openComments feedback) of
             Inl e \<Rightarrow> Inl e
           | Inr byFile \<Rightarrow>
               Inr ([''## Open Issues'', ''''] @ concat (map fileLines (Object_entries byFile)))
      else Inr noOpenIssuesLines)"

definition resolvedLine :: "ReviewComment \<Rightarrow> string" where
  "resolvedLine comment =
     (let location = (case truthyNumber (c_line comment) of
                        Some n \<Rightarrow> ''`'' @ c_path comment @ '':'' @ numberToString n @ ''`''
                      | None \<Rightarrow> ''`'' @ c_path comment @ ''`'')
      in ''- [x] ~~'' @ location @ '' '' @ middleDot @ '' @'' @ c_user comment @ ''~~'')"

definition resolvedLines :: "AggregatedFeedback \<Rightarrow> bool \<Rightarrow> string list" where
  "resolvedLines feedback includeResolved =
     (if includeResolved \<and> length (resolvedComments feedback) > 0
      then [''---'', '''', ''## Resolved'', '''']
           @ map resolvedLine (resolvedComments feedback)
           @ ['''']
      else [])"

definition reviewLines :: "Review \<Rightarrow> string list" where
  \<comment> \<open>the three state marks are empty strings in the source\<close>
  "reviewLines review =
     (let stateEmoji = (if r_state review = ''APPROVED'' then ''''
                        else if r_state review = ''CHANGES_REQUESTED'' then ''''
                        else '''')
      in [''### '' @ stateEmoji @ '' @'' @ r_user review @ '' (''
            @ replaceFirst (CHR ''_'') (CHR '' '') (toLowerCase (r_state review)) @ '')'',
          '''']
         @ map (\<lambda>bodyLine. ''> '' @ bodyLine) (splitOn newline (r_body review))
         @ [''''])"

definition summaryLines :: "AggregatedFeedback \<Rightarrow> string list" where
  "summaryLines feedback =
     (let significantReviews =
            filter (\<lambda>r. length (r_body r) > 20 \<and> r_state r \<noteq> ''PENDING'') (reviews feedback)
      in if length significantReviews > 0
         then [''---'', '''', ''## Review Summaries'', '''']
              @ concat (map reviewLines significantReviews)
         else [])"

definition generateMarkdown :: "AggregatedFeedback \<Rightarrow> bool \<Rightarrow> js_error + string" where
  \<comment> \<open>the lines in the order of the pushes, joined by line feeds; an exception of
      \<open>groupByFile\<close> leaves the function\<close>
  "generateMarkdown feedback includeResolved =
     (case issuesLines feedback of
        Inl e \<Rightarrow> Inl e
      | Inr issues \<Rightarrow>
          Inr (join [newline]
                 (headerLines feedback
                  @ statusLines feedback includeResolved
                  @ issues
                  @ resolvedLines feedback includeResolved
                  @ summaryLines feedback)))"

section \<open>Publishing the feedback file\<close>

text \<open>
  The branch of the pull request as the contents API shows it: a path holds a file or
  a directory, or nothing. The version token of a file (its \<open>sha\<close>) is a function of its
  content, so the content stands for it. A request fails with the status of \<open>outage\<close>
  when there is one. The arguments of the source functions that only address the
  repository (client, owner, repository, branch) and the number in the commit message
  are left out.
\<close>

datatype file_entry = File string | Directory

record platform =
  files :: "string \<rightharpoonup> file_entry"
  outage :: "nat option"

datatype api_error = HttpError nat

definition getContent :: "platform \<Rightarrow> string \<Rightarrow> api_error + file_entry" where
  "getContent p filePath =
     (case outage p of
        Some status \<Rightarrow> Inl (HttpError status)
      | None \<Rightarrow> (case files p filePath of
                   None \<Rightarrow> Inl (HttpError 404)
                 | Some entry \<Rightarrow> Inr entry))"

definition deleteFile :: "platform \<Rightarrow> string \<Rightarrow> string \<Rightarrow> api_error + platform" where
  "deleteFile p filePath sha =
     (case outage p of
        Some status \<Rightarrow> Inl (HttpError status)
      | None \<Rightarrow> (case files p filePath of
                   Some (File content) \<Rightarrow>
                     if content = sha then Inr (p\<lparr>files := (files p)(filePath := None)\<rparr>)
                     else Inl (HttpError 409)
                 | Some Directory \<Rightarrow> Inl (HttpError 422)
                 | None \<Rightarrow> Inl (HttpError 404)))"

definition createOrUpdateFileContents ::
  "platform \<Rightarrow> string \<Rightarrow> string \<Rightarrow> string option \<Rightarrow> api_error + platform" where
  "createOrUpdateFileContents p filePath content sha =
     (case outage p of
        Some status \<Rightarrow> Inl (HttpError status)
      | None \<Rightarrow> (case files p filePath of
                   Some (File old) \<Rightarrow>
                     if sha = Some old then Inr (p\<lparr>files := (files p)(filePath \<mapsto> File content)\<rparr>)
                     else Inl (HttpError 409)
                 | Some Directory \<Rightarrow> Inl (HttpError 422)
                 | None \<Rightarrow>
                     if sha = None then Inr (p\<lparr>files := (files p)(filePath \<mapsto> File content)\<rparr>)
                     else Inl (HttpError 404)))"

definition deleteFeedbackFile :: "platform \<Rightarrow> string \<Rightarrow> api_error + log_entry list \<times> platform" where
  \<comment> \<open>an error of status 404 thrown in the \<open>try\<close> block is caught; any other is thrown on\<close>
  "deleteFeedbackFile p filePath =
     (let caught = (\<lambda>e. case e of HttpError status \<Rightarrow>
                      if status \<noteq> 404 then Inl e else Inr ([], p))
      in case getContent p filePath of
           Inl e \<Rightarrow> caught e
         | Inr (File sha) \<Rightarrow>
             (case deleteFile p filePath sha of
                Inl e \<Rightarrow> caught e
              | Inr p' \<Rightarrow> Inr ([Info (''Deleted feedback file '' @ filePath)], p'))
         | Inr Directory \<Rightarrow> Inr ([], p))"

definition commitFeedbackFile ::
  "platform \<Rightarrow> string \<Rightarrow> string \<Rightarrow> api_error + log_entry list \<times> platform" where
  "commitFeedbackFile p filePath content =
     (let written = (\<lambda>sha. case createOrUpdateFileContents p filePath content sha of
                       Inl e \<Rightarrow> Inl e
                     | Inr p' \<Rightarrow> Inr ([Info (''Committed feedback file to '' @ filePath)], p'))
      in case getContent p filePath of
           Inl (HttpError status) \<Rightarrow>
             if status \<noteq> 404 then Inl (HttpError status) else written None
         | Inr (File sha) \<Rightarrow> written (Some sha)
         | Inr Directory \<Rightarrow> written None)"

definition publishFile ::
  "platform \<Rightarrow> string \<Rightarrow> ReviewComment list \<Rightarrow> string \<Rightarrow> api_error + log_entry list \<times> platform" where
  \<comment> \<open>\<open>run\<close>, the step that commits the feedback file: an empty path disables it\<close>
  "publishFile p feedbackFilePath openOnes markdown =
     (if feedbackFilePath \<noteq> []
      then if length openOnes = 0
           then deleteFeedbackFile p feedbackFilePath
           else commitFeedbackFile p feedbackFilePath markdown
      else Inr ([], p))"

section \<open>Case folding on the bits of a character\<close>

text \<open>
  The two case foldings are defined by arithmetic on the code unit. These equations say
  the same on the eight bits of a character (bit 5 is the case bit), so that concrete
  strings evaluate without arithmetic.
\<close>

lemma toLowerChar_Char [code]:
  "toLowerChar (Char b0 b1 b2 b3 b4 b5 b6 b7) =
     (if b6 \<and> \<not> b5 \<and> \<not> b7 \<and> (b0 \<or> b1 \<or> b2 \<or> b3 \<or> b4) \<and> \<not> (b4 \<and> b3 \<and> (b2 \<or> b1 \<and> b0))
         then Char b0 b1 b2 b3 b4 True b6 b7
      else if b7 \<and> b6 \<and> \<not> b5 \<and> \<not> (b4 \<and> \<not> b3 \<and> b2 \<and> b1 \<and> b0) \<and> \<not> (b4 \<and> b3 \<and> b2 \<and> b1 \<and> b0)
         then Char b0 b1 b2 b3 b4 True b6 b7
      else Char b0 b1 b2 b3 b4 b5 b6 b7)"
  by (cases b0; cases b1; cases b2; cases b3; cases b4; cases b5; cases b6; cases b7;
      simp add: toLowerChar_def char_of_eq_iff)

lemma canonicalize_Char [code]:
  "canonicalize (Char b0 b1 b2 b3 b4 b5 b6 b7) =
     (if b6 \<and> b5 \<and> \<not> b7 \<and> (b0 \<or> b1 \<or> b2 \<or> b3 \<or> b4) \<and> \<not> (b4 \<and> b3 \<and> (b2 \<or> b1 \<and> b0))
         then Char b0 b1 b2 b3 b4 False b6 b7
      else if b7 \<and> b6 \<and> b5 \<and> \<not> (b4 \<and> \<not> b3 \<and> b2 \<and> b1 \<and> b0) \<and> \<not> (b4 \<and> b3 \<and> b2 \<and> b1 \<and> b0)
         then Char b0 b1 b2 b3 b4 False b6 b7
      else Char b0 b1 b2 b3 b4 b5 b6 b7)"
  by (cases b0; cases b1; cases b2; cases b3; cases b4; cases b5; cases b6; cases b7;
      simp add: canonicalize_def char_of_eq_iff)

section \<open>Facts about strings\<close>

lemma str_includes_iff: "str_includes s needle \<longleftrightarrow> (\<exists>before after. s = before @ needle @ after)"
proof (induction s)
  case Nil
  then show ?case by auto
next
  case (Cons c s)
  show ?case
  proof
    assume "str_includes (c # s) needle"
    then consider "prefix needle (c # s)" | "str_includes s needle" by auto
    then show "\<exists>before after. c # s = before @ needle @ after"
    proof cases
      case 1
      then obtain after where "c # s = needle @ after" by (auto simp: prefix_def)
      then have "c # s = [] @ needle @ after" by simp
      then show ?thesis by blast
    next
      case 2
      with Cons.IH obtain before after where "s = before @ needle @ after" by blast
      then have "c # s = (c # before) @ needle @ after" by simp
      then show ?thesis by blast
    qed
  next
    assume "\<exists>before after. c # s = before @ needle @ after"
    then obtain before after where eq: "c # s = before @ needle @ after" by blast
    show "str_includes (c # s) needle"
    proof (cases before)
      case Nil
      with eq have "prefix needle (c # s)" by (simp add: prefix_def)
      then show ?thesis by simp
    next
      case (Cons b before')
      with eq have "s = before' @ needle @ after" by simp
      with Cons.IH have "str_includes s needle" by blast
      then show ?thesis by simp
    qed
  qed
qed

lemma map_eq_append_split:
  assumes "map f xs = ys @ zs"
  shows "\<exists>us vs. xs = us @ vs \<and> map f us = ys \<and> map f vs = zs"
proof -
  have "map f (take (length ys) xs) = take (length ys) (map f xs)" by (simp only: take_map)
  with assms have 1: "map f (take (length ys) xs) = ys" by simp
  have "map f (drop (length ys) xs) = drop (length ys) (map f xs)" by (simp only: drop_map)
  with assms have 2: "map f (drop (length ys) xs) = zs" by simp
  have "xs = take (length ys) xs @ drop (length ys) xs" by simp
  with 1 2 show ?thesis by blast
qed

lemma includes_lower_iff:
  assumes "map toLowerChar term_text = term_text"
  shows "str_includes (toLowerCase body) term_text \<longleftrightarrow> contains_ignoring_case body term_text"
proof
  assume "str_includes (toLowerCase body) term_text"
  then have "\<exists>b a. map toLowerChar body = b @ (term_text @ a)"
    by (simp only: str_includes_iff toLowerCase_def)
  then obtain b a where "map toLowerChar body = b @ (term_text @ a)" by blast
  from map_eq_append_split[OF this]
  obtain before rest where 1: "body = before @ rest"
    and r: "map toLowerChar rest = term_text @ a" by blast
  from map_eq_append_split[OF r]
  obtain part after where 2: "rest = part @ after"
    and 3: "map toLowerChar part = term_text" by blast
  from 3 assms have "map toLowerChar part = map toLowerChar term_text" by simp
  with 1 2 have "body = before @ part @ after \<and> map toLowerChar part = map toLowerChar term_text"
    by simp
  then show "contains_ignoring_case body term_text"
    unfolding contains_ignoring_case_def by blast
next
  assume "contains_ignoring_case body term_text"
  then obtain before part after where "body = before @ part @ after"
    and "map toLowerChar part = map toLowerChar term_text"
    unfolding contains_ignoring_case_def by blast
  with assms have "toLowerCase body = map toLowerChar before @ term_text @ map toLowerChar after"
    by (simp add: toLowerCase_def)
  then show "str_includes (toLowerCase body) term_text"
    unfolding str_includes_iff by blast
qed

lemma lower_rate_limit: "map toLowerChar ''rate limit'' = ''rate limit''"
  by code_simp

lemma lower_coderabbit: "map toLowerChar ''coderabbit'' = ''coderabbit''"
  by code_simp

section \<open>Facts about the extractor\<close>

lemma lower_canonicalize: "toLowerChar (canonicalize c) = toLowerChar c"
proof (cases c)
  case (Char b0 b1 b2 b3 b4 b5 b6 b7)
  show ?thesis unfolding Char
    by (cases b0; cases b1; cases b2; cases b3; cases b4; cases b5; cases b6; cases b7;
        simp add: canonicalize_Char toLowerChar_Char)
qed

lemma canonicalize_lower: "canonicalize (toLowerChar c) = canonicalize c"
proof (cases c)
  case (Char b0 b1 b2 b3 b4 b5 b6 b7)
  show ?thesis unfolding Char
    by (cases b0; cases b1; cases b2; cases b3; cases b4; cases b5; cases b6; cases b7;
        simp add: canonicalize_Char toLowerChar_Char)
qed

lemma same_letter_iff: "canonicalize a = canonicalize b \<longleftrightarrow> toLowerChar a = toLowerChar b"
proof
  assume "canonicalize a = canonicalize b"
  then have "toLowerChar (canonicalize a) = toLowerChar (canonicalize b)" by simp
  then show "toLowerChar a = toLowerChar b" by (simp only: lower_canonicalize)
next
  assume "toLowerChar a = toLowerChar b"
  then have "canonicalize (toLowerChar a) = canonicalize (toLowerChar b)" by simp
  then show "canonicalize a = canonicalize b" by (simp only: canonicalize_lower)
qed

lemma lit_iff:
  "r \<in> set (lit p s) \<longleftrightarrow> (\<exists>part. s = part @ r \<and> map toLowerChar part = map toLowerChar p)"
proof (induction p s rule: lit.induct)
  case (1 s)
  then show ?case by auto
next
  case (2 p ps)
  then show ?case by auto
next
  case (3 p ps c s)
  show ?case
  proof (cases "canonicalize c = canonicalize p")
    case True
    then have same: "toLowerChar c = toLowerChar p" by (simp only: same_letter_iff)
    have "r \<in> set (lit (p # ps) (c # s)) \<longleftrightarrow> r \<in> set (lit ps s)" using True by simp
    also have "\<dots> \<longleftrightarrow> (\<exists>part. s = part @ r \<and> map toLowerChar part = map toLowerChar ps)"
      using 3[OF True] .
    also have "\<dots> \<longleftrightarrow> (\<exists>part. c # s = part @ r \<and> map toLowerChar part = map toLowerChar (p # ps))"
    proof
      assume "\<exists>part. s = part @ r \<and> map toLowerChar part = map toLowerChar ps"
      then obtain part where "s = part @ r" and "map toLowerChar part = map toLowerChar ps" by blast
      with same have "c # s = (c # part) @ r \<and> map toLowerChar (c # part) = map toLowerChar (p # ps)"
        by simp
      then show "\<exists>part. c # s = part @ r \<and> map toLowerChar part = map toLowerChar (p # ps)" by blast
    next
      assume "\<exists>part. c # s = part @ r \<and> map toLowerChar part = map toLowerChar (p # ps)"
      then obtain part where eq: "c # s = part @ r"
        and m: "map toLowerChar part = map toLowerChar (p # ps)" by blast
      from m obtain d part' where part: "part = d # part'" by (cases part) auto
      with eq m have "s = part' @ r \<and> map toLowerChar part' = map toLowerChar ps" by simp
      then show "\<exists>part. s = part @ r \<and> map toLowerChar part = map toLowerChar ps" by blast
    qed
    finally show ?thesis .
  next
    case False
    then have diff: "toLowerChar c \<noteq> toLowerChar p" by (simp only: same_letter_iff) simp
    have "\<not> (\<exists>part. c # s = part @ r \<and> map toLowerChar part = map toLowerChar (p # ps))"
    proof
      assume "\<exists>part. c # s = part @ r \<and> map toLowerChar part = map toLowerChar (p # ps)"
      then obtain part where eq: "c # s = part @ r"
        and m: "map toLowerChar part = map toLowerChar (p # ps)" by blast
      from m obtain d part' where part: "part = d # part'" by (cases part) auto
      with eq m have "toLowerChar c = toLowerChar p" by simp
      with diff show False by simp
    qed
    with False show ?thesis by simp
  qed
qed

lemma suffix_contains:
  assumes "suffix t s" and "t = part @ r" and "map toLowerChar part = map toLowerChar label"
  shows "contains_ignoring_case s label"
proof -
  from assms(1) obtain before where "s = before @ t" by (auto simp: suffix_def)
  with assms(2) have "s = before @ part @ r" by simp
  with assms(3) show ?thesis unfolding contains_ignoring_case_def by blast
qed

lemma rsearch_label:
  assumes "rsearch p s \<noteq> None" and "before_group p = Seq (Lit label) following"
  shows "contains_ignoring_case s label"
proof -
  from assms(1) obtain captured rest where "rsearch p s = Some (captured, rest)" by auto
  from rsearch_Some[OF this] obtain t s1 s2 where suf: "suffix t s"
    and m: "(s1, s2, rest) \<in> set (match_at p t)" by blast
  from match_at_parts(1)[OF m] assms(2) obtain r where "r \<in> set (lit label t)" by auto
  then obtain part where "t = part @ r" and "map toLowerChar part = map toLowerChar label"
    unfolding lit_iff by blast
  with suf show ?thesis by (rule suffix_contains)
qed




lemma path_field_label:
  assumes "rsearch pathRegex b \<noteq> None"
  shows "contains_ignoring_case b ''Path:''"
proof -
  have "before_group pathRegex = Seq (Lit ''Path:'') (Greedy Space 0 None)"
    by (simp add: pathRegex_def)
  from rsearch_label[OF assms this] show ?thesis .
qed







lemma blockFields_Some_iff:
  "blockFields b \<noteq> None \<longleftrightarrow> rsearch pathRegex b \<noteq> None \<and> rsearch commentRegex b \<noteq> None"
  by (auto simp: blockFields_def split: option.splits prod.splits)

lemma parseBlock_eq:
  "parseBlock commentId user url createdAt b comments =
     comments @ (case blockFields b of
                   None \<Rightarrow> []
                 | Some f \<Rightarrow> [extracted commentId user url createdAt (length comments, f)])"
  by (simp add: parseBlock_def blockFields_def extracted_def split: option.splits prod.splits)

lemma parseLoop_eq:
  "parseLoop commentId user url createdAt s comments =
     comments @ map (extracted commentId user url createdAt)
                  (List.enumerate (length comments) (List.map_filter blockFields (blocks s)))"
proof (induction commentId user url createdAt s comments rule: parseLoop.induct)
  case (1 commentId user url createdAt remaining comments)
  show ?case
  proof (cases "rsearch promptBlockRegex remaining")
    case None
    then have "blocks remaining = []" by (subst blocks.simps) simp
    moreover from None have "parseLoop commentId user url createdAt remaining comments = comments"
      by (subst parseLoop.simps) simp
    ultimately show ?thesis by simp
  next
    case (Some m)
    obtain blockContent rest where m: "m = (blockContent, rest)" by (cases m)
    from Some m have found: "rsearch promptBlockRegex remaining = Some (blockContent, rest)" by simp
    then have bl: "blocks remaining = blockContent # blocks rest" by (subst blocks.simps) simp
    from found have step: "parseLoop commentId user url createdAt remaining comments =
        parseLoop commentId user url createdAt rest
          (parseBlock commentId user url createdAt blockContent comments)"
      by (subst parseLoop.simps) simp
    note IH = 1[OF found]
    show ?thesis
    proof (cases "blockFields blockContent")
      case None
      then have "parseBlock commentId user url createdAt blockContent comments = comments"
        by (simp add: parseBlock_eq)
      with step IH None bl show ?thesis by simp
    next
      case (Some f)
      then have pb: "parseBlock commentId user url createdAt blockContent comments =
          comments @ [extracted commentId user url createdAt (length comments, f)]"
        by (simp add: parseBlock_eq)
      from step IH have "parseLoop commentId user url createdAt remaining comments =
          (comments @ [extracted commentId user url createdAt (length comments, f)]) @
            map (extracted commentId user url createdAt)
              (List.enumerate (Suc (length comments)) (List.map_filter blockFields (blocks rest)))"
        by (simp add: pb)
      with Some bl show ?thesis by simp
    qed
  qed
qed

lemma fetchGreptileLoop_eq:
  "fetchGreptileLoop issueComments acc =
     acc @ concat (map (\<lambda>c. case ic_body c of
                               None \<Rightarrow> []
                             | Some body \<Rightarrow>
                                 if extractionAttempted c
                                 then parseGreptileComments (ic_id c) body ''greptile-apps[bot]''
                                        (ic_html_url c) (ic_created_at c)
                                 else []) issueComments)"
proof (induction issueComments arbitrary: acc)
  case Nil
  then show ?case by simp
next
  case (Cons c cs)
  have login: "loginOrUnknown (ic_login c) = ''greptile-apps[bot]'' \<longleftrightarrow>
      ic_login c = Some ''greptile-apps[bot]''"
    by (auto simp: loginOrUnknown_def split: option.splits)
  show ?case
  proof (cases "ic_body c")
    case None
    then show ?thesis using Cons.IH by simp
  next
    case (Some body)
    have att: "extractionAttempted c \<longleftrightarrow>
        loginOrUnknown (ic_login c) = ''greptile-apps[bot]'' \<and> str_includes body ''Prompt To Fix With AI''"
      unfolding extractionAttempted_def login str_includes_iff using Some by simp
    let ?g = "loginOrUnknown (ic_login c) = ''greptile-apps[bot]'' \<and>
        str_includes body ''Prompt To Fix With AI''"
    let ?parsed = "parseGreptileComments (ic_id c) body (loginOrUnknown (ic_login c))
        (ic_html_url c) (ic_created_at c)"
    have step: "fetchGreptileLoop (c # cs) acc =
        (if ?g then fetchGreptileLoop cs (acc @ ?parsed) else fetchGreptileLoop cs acc)"
      using Some by (simp add: Let_def)
    show ?thesis
    proof (cases "extractionAttempted c")
      case True
      with att have g: ?g by simp
      then have user: "loginOrUnknown (ic_login c) = ''greptile-apps[bot]''" by simp
      have "fetchGreptileLoop (c # cs) acc = fetchGreptileLoop cs (acc @ ?parsed)"
        unfolding step by (rule if_P[OF g])
      with Cons.IH Some True user show ?thesis by (simp add: Let_def)
    next
      case False
      with att have ng: "\<not> ?g" by simp
      have "fetchGreptileLoop (c # cs) acc = fetchGreptileLoop cs acc"
        unfolding step by (rule if_not_P[OF ng])
      with Cons.IH Some False show ?thesis by (simp add: Let_def)
    qed
  qed
qed

lemma lower_idem: "toLowerChar (toLowerChar c) = toLowerChar c"
proof (cases c)
  case (Char b0 b1 b2 b3 b4 b5 b6 b7)
  show ?thesis unfolding Char
    by (cases b0; cases b1; cases b2; cases b3; cases b4; cases b5; cases b6; cases b7;
        simp add: toLowerChar_Char)
qed

lemma contains_ignoring_case_code [code]:
  "contains_ignoring_case body term_text \<longleftrightarrow>
     str_includes (toLowerCase body) (toLowerCase term_text)"
proof -
  have "map toLowerChar (toLowerCase term_text) = toLowerCase term_text"
    by (simp add: toLowerCase_def lower_idem)
  then have "str_includes (toLowerCase body) (toLowerCase term_text) \<longleftrightarrow>
      contains_ignoring_case body (toLowerCase term_text)"
    by (rule includes_lower_iff)
  also have "\<dots> \<longleftrightarrow> contains_ignoring_case body term_text"
    by (simp add: contains_ignoring_case_def toLowerCase_def lower_idem comp_def)
  finally show ?thesis by simp
qed

lemma extractionAttempted_code [code]:
  "extractionAttempted comment \<longleftrightarrow>
     ic_login comment = Some ''greptile-apps[bot]'' \<and>
     (case ic_body comment of
        None \<Rightarrow> False
      | Some body \<Rightarrow> str_includes body ''Prompt To Fix With AI'')"
  by (cases "ic_body comment") (auto simp: extractionAttempted_def str_includes_iff)


lemma ids_of_one_body_distinct:
  "distinct (map c_id (parseGreptileComments commentId body user url createdAt))"
proof -
  let ?fields = "List.map_filter blockFields (blocks body)"
  have ids: "map c_id (parseGreptileComments commentId body user url createdAt) =
      map (\<lambda>e. commentId + fst e) (List.enumerate 0 ?fields)"
    unfolding parseGreptileComments_def
    by (simp add: parseLoop_eq extracted_def case_prod_beta comp_def)
  have ords: "map fst (List.enumerate 0 ?fields) = [0..<length ?fields]"
    by (simp add: map_fst_enumerate)
  have "map (\<lambda>e. commentId + fst e) (List.enumerate 0 ?fields) =
      map (\<lambda>k. commentId + k) (map fst (List.enumerate 0 ?fields))"
    by (simp only: map_map comp_def)
  then have "map (\<lambda>e. commentId + fst e) (List.enumerate 0 ?fields) =
      map (\<lambda>k. commentId + k) [0..<length ?fields]"
    by (simp only: ords)
  with ids have "map c_id (parseGreptileComments commentId body user url createdAt) =
      map (\<lambda>k. commentId + k) [0..<length ?fields]"
    by (rule trans)
  then show ?thesis by (simp add: distinct_map inj_on_def)
qed

section \<open>Facts about numbers\<close>

lemma toDouble_exact: "n < 2 ^ 53 \<Longrightarrow> toDouble n = enat n"
proof -
  assume small: "n < 2 ^ 53"
  have "n < 2 ^ 1024"
    by (rule less_trans [OF small]) simp
  with small show ?thesis
    by (simp add: toDouble_def exponentOf.simps [of n])
qed

lemma toDouble_code [code]:
  "toDouble n =
     (if int n < 9007199254740992 then enat n
      else let e = exponentOf n;
               q = n div 2 ^ e;
               r = n mod 2 ^ e;
               m = (if 2 * r < 2 ^ e then q
                    else if 2 ^ e < 2 * r then q + 1
                    else if even q then q else q + 1);
               v = m * 2 ^ e
           in if 2 ^ 1024 \<le> v then \<infinity> else enat v)"
proof (cases "n < 2 ^ 53")
  case True
  then show ?thesis by (simp add: toDouble_exact)
next
  case False
  then show ?thesis by (simp add: toDouble_def)
qed

lemma numberToString_code [code]:
  "numberToString \<infinity> = ''Infinity''"
  "numberToString (enat n) =
     (if int n \<le> 9007199254740992 then showNat n
      else let v = shortest n
           in if v < 10 ^ 21 then showNat v else exponential v)"
proof -
  show "numberToString \<infinity> = ''Infinity''"
    by (simp add: numberToString_def)
  have "int n \<le> 9007199254740992 \<longleftrightarrow> n \<le> 2 ^ 53" by simp
  then show "numberToString (enat n) =
     (if int n \<le> 9007199254740992 then showNat n
      else let v = shortest n
           in if v < 10 ^ 21 then showNat v else exponential v)"
    by (simp add: numberToString_def)
qed

text \<open>
  Evaluation of the number functions on numerals: each \<open>let\<close> is computed before it is
  used.
\<close>

lemma Let_weak: "a = b \<Longrightarrow> Let a t = Let b t"
  by simp

lemma Let_value:
  "Let (Suc n) f = f (Suc n)" "Let (Some v) g = g (Some v)" "Let None g = g None"
  "Let (enat m) h = h (enat m)" "Let [] k = k []" "Let (y # ys) k = k (y # ys)"
  "Let True b = b True" "Let False b = b False"
  by (simp_all add: Let_def)

lemma digitChar_simps:
  "digitChar 0 = CHR ''0''" "digitChar (Suc 0) = CHR ''1''" "digitChar 2 = CHR ''2''"
  "digitChar 3 = CHR ''3''" "digitChar 4 = CHR ''4''" "digitChar 5 = CHR ''5''"
  "digitChar 6 = CHR ''6''" "digitChar 7 = CHR ''7''" "digitChar 8 = CHR ''8''"
  "digitChar 9 = CHR ''9''"
  by (simp_all add: digitChar_def)

lemmas number_eval =
  toDouble_def exponentOf.simps showNat.simps digitChar_simps shortestAt_def shortest_def
  exponential_def numberToString_def shortestFrom.simps Let_value




text \<open>
  The texts of \<open>12\<close>, \<open>2^60\<close>, \<open>10^21\<close> and \<open>2^70\<close>.
\<close>

lemma numberToString_small: "numberToString 12 = ''12''"
  by (simp add: number_eval numeral_eq_enat cong: Let_weak)

lemma numberToString_2_60: "numberToString (enat (2 ^ 60)) = ''1152921504606847000''"
  by (simp add: number_eval cong: Let_weak)

lemma numberToString_10_21: "numberToString (enat (10 ^ 21)) = ''1e+21''"
  by (simp add: number_eval cong: Let_weak)

lemma numberToString_2_70: "numberToString (enat (2 ^ 70)) = ''1.1805916207174113e+21''"
  by (simp add: number_eval cong: Let_weak)

text \<open>
  A line field of 22 digits: the number is \<open>10^21\<close>, and its text is in exponent form.
\<close>

lemma digitsValue_10_21: "digitsValue ''1000000000000000000000'' = 10 ^ 21"
  by (simp add: digitsValue_def digitVal_def)

lemma toDouble_10_21: "toDouble (10 ^ 21) = enat (10 ^ 21)"
  by (simp add: number_eval cong: Let_weak)

lemma line_of_22_digits:
  "numberToString (parseInt10 ''1000000000000000000000'') = ''1e+21''"
  by (simp only: parseInt10_def digitsValue_10_21 toDouble_10_21 numberToString_10_21)

section \<open>Facts about the reconciler\<close>

lemma resolvedThreadIds_iff:
  "Some i \<in> set (resolvedThreadIds threads) \<longleftrightarrow> anchorOfResolvedThread threads i"
proof (induction threads)
  case Nil
  then show ?case by (simp add: anchorOfResolvedThread_def)
next
  case (Cons thread threads)
  have here: "t_commentIds thread \<noteq> [] \<and> hd (t_commentIds thread) = Some i \<longleftrightarrow>
      (\<exists>others. t_commentIds thread = Some i # others)"
    by (cases "t_commentIds thread") auto
  have split: "anchorOfResolvedThread (thread # threads) i \<longleftrightarrow>
      (t_isResolved thread \<and> (\<exists>others. t_commentIds thread = Some i # others))
      \<or> anchorOfResolvedThread threads i"
    by (auto simp: anchorOfResolvedThread_def)
  show ?case
  proof (cases "t_isResolved thread \<and> length (t_commentIds thread) > 0")
    case True
    then have "Some i \<in> set (resolvedThreadIds (thread # threads)) \<longleftrightarrow>
        hd (t_commentIds thread) = Some i \<or> Some i \<in> set (resolvedThreadIds threads)"
      by auto
    with True here Cons.IH split show ?thesis by blast
  next
    case False
    then have a: "Some i \<in> set (resolvedThreadIds (thread # threads)) \<longleftrightarrow>
        Some i \<in> set (resolvedThreadIds threads)"
      by auto
    from False have b: "\<not> (t_isResolved thread \<and> (\<exists>others. t_commentIds thread = Some i # others))"
      by auto
    from a b Cons.IH split show ?thesis by blast
  qed
qed

section \<open>Facts about grouping\<close>

lemma isArrayIndex_code [code]:
  "isArrayIndex k \<longleftrightarrow>
     k \<noteq> [] \<and> list_all isDigit k \<and> (k = ''0'' \<or> hd k \<noteq> CHR ''0'') \<and>
     int (digitsValue k) \<le> 4294967294"
proof -
  have "int (digitsValue k) \<le> 4294967294 \<longleftrightarrow> digitsValue k \<le> 4294967294" by linarith
  then show ?thesis by (simp only: isArrayIndex_def)
qed

lemma alist_rebuild:
  "distinct (map fst g) \<Longrightarrow>
     map (\<lambda>k. (k, case map_of g k of None \<Rightarrow> [] | Some v \<Rightarrow> v)) (map fst g) = g"
proof (induction g)
  case Nil
  then show ?case by simp
next
  case (Cons e g)
  obtain a v where e: "e = (a, v)" by (cases e)
  from Cons.prems e have fresh: "a \<notin> set (map fst g)" and d: "distinct (map fst g)" by simp_all
  have "map (\<lambda>k. (k, case map_of ((a, v) # g) k of None \<Rightarrow> [] | Some v \<Rightarrow> v)) (map fst g) =
        map (\<lambda>k. (k, case map_of g k of None \<Rightarrow> [] | Some v \<Rightarrow> v)) (map fst g)"
    using fresh by (intro map_cong) auto
  with Cons.IH[OF d] e show ?case by simp
qed

lemma map_of_push:
  "map_of (map (\<lambda>(k, v). if k = p then (k, v @ [c]) else (k, v)) g) k =
     (if k = p then map_option (\<lambda>v. v @ [c]) (map_of g p) else map_of g k)"
  by (induction g) auto

lemma keys_push:
  "map fst (map (\<lambda>(k, v). if k = p then (k, v @ [c]) else (k, v)) g) = map fst g"
  by (induction g) auto

lemma groupLoop_eq:
  assumes "\<forall>c \<in> set cs. groupKey c \<notin> set objectPrototypeKeys" and "distinct (map fst g)"
  shows "groupLoop cs g =
     Inr (map (\<lambda>k. (k, membersOf g cs k))
            (map fst g @ filter (\<lambda>k. k \<notin> set (map fst g)) (firstSeen (map groupKey cs))))"
  using assms
proof (induction cs arbitrary: g)
  case Nil
  from alist_rebuild[OF Nil.prems(2)] show ?case by (simp add: membersOf_def)
next
  case (Cons c cs)
  let ?path = "groupKey c"
  let ?F = "firstSeen (map groupKey cs)"
  from Cons.prems have rest: "\<forall>c \<in> set cs. groupKey c \<notin> set objectPrototypeKeys"
    and own: "?path \<notin> set objectPrototypeKeys" by simp_all
  show ?case
  proof (cases "map_of g ?path")
    case None
    let ?g' = "g @ [(?path, [c])]"
    from None have fresh: "?path \<notin> set (map fst g)" by (simp add: map_of_eq_None_iff)
    with Cons.prems have d': "distinct (map fst ?g')" by simp
    from None own have step: "groupLoop (c # cs) g = groupLoop cs ?g'"
      by (simp add: getProperty_def Let_def)
    have "filter (\<lambda>k. k \<notin> set (map fst ?g')) ?F =
        filter (\<lambda>k. k \<notin> set (map fst g)) (filter (\<lambda>x. x \<noteq> ?path) ?F)"
      unfolding filter_filter by (rule filter_cong) auto
    with fresh have keys: "map fst ?g' @ filter (\<lambda>k. k \<notin> set (map fst ?g')) ?F =
        map fst g @ filter (\<lambda>k. k \<notin> set (map fst g)) (firstSeen (map groupKey (c # cs)))"
      by simp
    have members: "membersOf ?g' cs = membersOf g (c # cs)"
    proof
      fix k
      show "membersOf ?g' cs k = membersOf g (c # cs) k"
      proof (cases "k = ?path")
        case True
        with None show ?thesis by (simp add: membersOf_def map_add_def)
      next
        case False
        then have "map_of ?g' k = map_of g k" by (cases "map_of g k") (simp_all add: map_add_def)
        with False show ?thesis by (simp add: membersOf_def)
      qed
    qed
    have "groupLoop (c # cs) g = groupLoop cs ?g'" by (rule step)
    also have "\<dots> = Inr (map (\<lambda>k. (k, membersOf ?g' cs k))
        (map fst ?g' @ filter (\<lambda>k. k \<notin> set (map fst ?g')) ?F))"
      by (rule Cons.IH[OF rest d'])
    also have "\<dots> = Inr (map (\<lambda>k. (k, membersOf g (c # cs) k))
        (map fst g @ filter (\<lambda>k. k \<notin> set (map fst g)) (firstSeen (map groupKey (c # cs)))))"
      by (simp only: keys members)
    finally show ?thesis .
  next
    case (Some v)
    let ?g' = "map (\<lambda>(k, v). if k = ?path then (k, v @ [c]) else (k, v)) g"
    from Some have "(?path, v) \<in> set g" by (rule map_of_SomeD)
    then have known: "?path \<in> set (map fst g)" by force
    from Cons.prems(2) have d': "distinct (map fst ?g')" by (simp only: keys_push)
    from Some have step: "groupLoop (c # cs) g = groupLoop cs ?g'"
      by (simp add: getProperty_def Let_def)
    have "filter (\<lambda>k. k \<notin> set (map fst g)) (filter (\<lambda>x. x \<noteq> ?path) ?F) =
        filter (\<lambda>k. k \<notin> set (map fst g)) ?F"
      unfolding filter_filter using known by (intro filter_cong) auto
    with known have "map fst g @ filter (\<lambda>k. k \<notin> set (map fst g)) ?F =
        map fst g @ filter (\<lambda>k. k \<notin> set (map fst g)) (firstSeen (map groupKey (c # cs)))"
      by simp
    then have keys: "map fst ?g' @ filter (\<lambda>k. k \<notin> set (map fst ?g')) ?F =
        map fst g @ filter (\<lambda>k. k \<notin> set (map fst g)) (firstSeen (map groupKey (c # cs)))"
      by (simp only: keys_push)
    have members: "membersOf ?g' cs = membersOf g (c # cs)"
    proof
      fix k
      show "membersOf ?g' cs k = membersOf g (c # cs) k"
      proof (cases "k = ?path")
        case True
        with Some have "map_of ?g' k = Some (v @ [c])" by (simp add: map_of_push)
        with True Some show ?thesis by (simp add: membersOf_def)
      next
        case False
        then have "map_of ?g' k = map_of g k" by (simp add: map_of_push)
        with False show ?thesis by (simp add: membersOf_def)
      qed
    qed
    have "groupLoop (c # cs) g = groupLoop cs ?g'" by (rule step)
    also have "\<dots> = Inr (map (\<lambda>k. (k, membersOf ?g' cs k))
        (map fst ?g' @ filter (\<lambda>k. k \<notin> set (map fst ?g')) ?F))"
      by (rule Cons.IH[OF rest d'])
    also have "\<dots> = Inr (map (\<lambda>k. (k, membersOf g (c # cs) k))
        (map fst g @ filter (\<lambda>k. k \<notin> set (map fst g)) (firstSeen (map groupKey (c # cs)))))"
      by (simp only: keys members)
    finally show ?thesis .
  qed
qed

lemma insort_key_map:
  "insort_key f (h x) (map h xs) = map h (insort_key (\<lambda>y. f (h y)) x xs)"
  by (induction xs) auto

lemma sort_key_map:
  "sort_key f (map h xs) = map h (sort_key (\<lambda>y. f (h y)) xs)"
  by (induction xs) (auto simp: insort_key_map)

lemma Object_entries_keyed:
  "Object_entries (map (\<lambda>k. (k, f k)) ks) = map (\<lambda>k. (k, f k)) (keyOrder ks)"
proof -
  have "filter (\<lambda>(k, v). isArrayIndex k) (map (\<lambda>k. (k, f k)) ks) =
      map (\<lambda>k. (k, f k)) (filter isArrayIndex ks)"
    by (induction ks) auto
  moreover have "filter (\<lambda>(k, v). \<not> isArrayIndex k) (map (\<lambda>k. (k, f k)) ks) =
      map (\<lambda>k. (k, f k)) (filter (\<lambda>k. \<not> isArrayIndex k) ks)"
    by (induction ks) auto
  ultimately show ?thesis
    by (simp add: Object_entries_def keyOrder_def sort_key_map)
qed

lemma groupByFile_eq:
  assumes "\<forall>c \<in> set cs. groupKey c \<notin> set objectPrototypeKeys"
  shows "groupByFile cs =
     Inr (map (\<lambda>k. (k, sort_key lineOrZero (filter (\<lambda>c. groupKey c = k) cs)))
            (firstSeen (map groupKey cs)))"
proof -
  have "groupLoop cs [] =
      Inr (map (\<lambda>k. (k, membersOf [] cs k)) (firstSeen (map groupKey cs)))"
    using groupLoop_eq[OF assms, of "[]"] by simp
  then show ?thesis by (simp add: groupByFile_def membersOf_def comp_def)
qed

lemma keyOrder_no_index:
  "\<forall>k \<in> set ks. \<not> isArrayIndex k \<Longrightarrow> keyOrder ks = ks"
proof -
  assume a: "\<forall>k \<in> set ks. \<not> isArrayIndex k"
  then have "filter isArrayIndex ks = []" by (simp add: filter_empty_conv)
  moreover from a have "filter (\<lambda>k. \<not> isArrayIndex k) ks = ks" by (simp add: filter_id_conv)
  ultimately show ?thesis by (simp add: keyOrder_def)
qed

lemma set_firstSeen: "set (firstSeen ks) = set ks"
  by (induction ks) auto

section \<open>Claim C8: the noise filter\<close>

text \<open>
  C8. The noise filter excludes a body if and only if the body contains, ignoring letter
  case, both \<open>rate limit\<close> and \<open>coderabbit\<close>. A body with only one of the two terms is
  retained: the two bodies at the end are a notice from the bot (excluded), and a rate
  limit remark that does not name the bot (retained).
\<close>

theorem noise_filter_iff_both_terms:
  "(isIgnoredBotComment body \<longleftrightarrow>
      contains_ignoring_case body ''rate limit'' \<and> contains_ignoring_case body ''coderabbit'')
   \<and> isIgnoredBotComment ''CodeRabbit: Rate Limit exceeded''
   \<and> \<not> isIgnoredBotComment ''Should we add rate limiting here?''
   \<and> \<not> isIgnoredBotComment ''coderabbit found nothing''"
proof -
  have "isIgnoredBotComment body \<longleftrightarrow>
      contains_ignoring_case body ''rate limit'' \<and> contains_ignoring_case body ''coderabbit''"
    unfolding isIgnoredBotComment_def Let_def
    by (simp only: includes_lower_iff[OF lower_rate_limit] includes_lower_iff[OF lower_coderabbit] if_bool_eq_conj)
       simp
  moreover have "isIgnoredBotComment ''CodeRabbit: Rate Limit exceeded''" by code_simp
  moreover have "\<not> isIgnoredBotComment ''Should we add rate limiting here?''" by code_simp
  moreover have "\<not> isIgnoredBotComment ''coderabbit found nothing''" by code_simp
  ultimately show ?thesis by blast
qed

section \<open>Claim C1: what the extractor yields\<close>



section \<open>Claim C10: which general comments are scanned\<close>

text \<open>
  C10. Extraction is attempted only on a general comment whose author login is exactly
  \<open>greptile-apps[bot]\<close> and whose body contains \<open>Prompt To Fix With AI\<close> as written: the
  result is the concatenation of what the extractor yields on these comments, and a
  comment of another author, or without the phrase, contributes nothing, whatever
  blocks its body holds.
\<close>

theorem extraction_only_for_bot_prompt_comments:
  "fetchGreptileCommentsFromIssueComments issueComments =
     concat (map (\<lambda>c. case ic_body c of
                         None \<Rightarrow> []
                       | Some body \<Rightarrow>
                           if extractionAttempted c
                           then parseGreptileComments (ic_id c) body ''greptile-apps[bot]''
                                  (ic_html_url c) (ic_created_at c)
                           else []) issueComments)
   \<and> (\<not> extractionAttempted comment \<longrightarrow>
        fetchGreptileCommentsFromIssueComments (earlier @ comment # later) =
        fetchGreptileCommentsFromIssueComments (earlier @ later))"
proof -
  have eq: "\<And>cs. fetchGreptileCommentsFromIssueComments cs =
     concat (map (\<lambda>c. case ic_body c of
                         None \<Rightarrow> []
                       | Some body \<Rightarrow>
                           if extractionAttempted c
                           then parseGreptileComments (ic_id c) body ''greptile-apps[bot]''
                                  (ic_html_url c) (ic_created_at c)
                           else []) cs)"
    unfolding fetchGreptileCommentsFromIssueComments_def by (simp add: fetchGreptileLoop_eq)
  have "\<not> extractionAttempted comment \<longrightarrow>
        fetchGreptileCommentsFromIssueComments (earlier @ comment # later) =
        fetchGreptileCommentsFromIssueComments (earlier @ later)"
    unfolding eq by (cases "ic_body comment") simp_all
  with eq[of issueComments] show ?thesis by blast
qed

text \<open>
  The theorem at two comments that each hold a complete block: one written by \<open>alice\<close>,
  and one written by the bot whose summary line is in lower case, so that the block
  pattern (which ignores case) matches but the phrase as written is absent.
\<close>

theorem extraction_only_for_bot_prompt_comments_witness:
  "\<not> extractionAttempted
       \<lparr>ic_id = 5, ic_login = Some ''alice'',
        ic_body = Some ''<details><summary>Prompt To Fix With AI</summary>```markdown Path: a.go Comment: x```</details>'',
        ic_html_url = ''url'', ic_created_at = ''now''\<rparr>
   \<and> parseGreptileComments 5
        ''<details><summary>Prompt To Fix With AI</summary>```markdown Path: a.go Comment: x```</details>''
        ''alice'' ''url'' ''now'' \<noteq> []
   \<and> fetchGreptileCommentsFromIssueComments
        ([] @ \<lparr>ic_id = 5, ic_login = Some ''alice'',
        ic_body = Some ''<details><summary>Prompt To Fix With AI</summary>```markdown Path: a.go Comment: x```</details>'',
        ic_html_url = ''url'', ic_created_at = ''now''\<rparr> # []) = []"
proof -
  let ?c = "\<lparr>ic_id = 5, ic_login = Some ''alice'',
        ic_body = Some ''<details><summary>Prompt To Fix With AI</summary>```markdown Path: a.go Comment: x```</details>'',
        ic_html_url = ''url'', ic_created_at = ''now''\<rparr>"
  have na: "\<not> extractionAttempted ?c" by code_simp
  have parsed: "parseGreptileComments 5
        ''<details><summary>Prompt To Fix With AI</summary>```markdown Path: a.go Comment: x```</details>''
        ''alice'' ''url'' ''now'' \<noteq> []" by code_simp
  have none: "fetchGreptileCommentsFromIssueComments ([] @ []) = []"
    by (simp add: fetchGreptileCommentsFromIssueComments_def)
  from extraction_only_for_bot_prompt_comments
         [where comment = "?c" and earlier = "[]" and later = "[]" and issueComments = "[]"] na
  have "fetchGreptileCommentsFromIssueComments ([] @ ?c # []) =
        fetchGreptileCommentsFromIssueComments ([] @ [])" by blast
  with none na parsed show ?thesis by simp
qed

section \<open>Claim C4: reconciliation, and its failure\<close>

text \<open>
  C4. When the query answers, the reconciler returns the comments in their order, each
  with \<open>resolved\<close> set to whether its id is the anchor of a resolved thread and with every
  other field unchanged: exactly the matching comments become resolved, and the others,
  which entered unresolved, stay so. When anything is thrown in the query, the comments
  are returned unchanged, and the one thing reported is a warning; the function has no
  error result.
\<close>

theorem reconciler_marks_exactly_the_anchors:
  "fetchResolvedStatus (Inr threads) comments =
     ([], map (\<lambda>c. c\<lparr>c_isResolved := anchorOfResolvedThread threads (c_id c)\<rparr>) comments)
   \<and> fetchResolvedStatus (Inl error) comments =
     ([Warning (''Could not fetch resolved status via GraphQL: '' @ error)], comments)"
  by (simp add: fetchResolvedStatus_def resolvedThreadIds_iff)

section \<open>Claim C3: open and resolved partition the filtered comments\<close>

text \<open>
  C3. In the feedback object that \<open>run\<close> builds, the open comments are the filtered
  comments that are not resolved and the resolved comments are those that are, each in
  the order of the filtered list. Counted with multiplicity the two lists together are
  the filtered list, and no comment is in both.
\<close>

theorem open_and_resolved_partition:
  "openComments (aggregate number title html_url now merged fetchedReviews) =
     filter (\<lambda>c. \<not> c_isResolved c) (filteredComments merged)
   \<and> resolvedComments (aggregate number title html_url now merged fetchedReviews) =
     filter (\<lambda>c. c_isResolved c) (filteredComments merged)
   \<and> mset (openComments (aggregate number title html_url now merged fetchedReviews))
       + mset (resolvedComments (aggregate number title html_url now merged fetchedReviews))
     = mset (filteredComments merged)
   \<and> set (openComments (aggregate number title html_url now merged fetchedReviews))
       \<inter> set (resolvedComments (aggregate number title html_url now merged fetchedReviews)) = {}"
proof -
  let ?fb = "aggregate number title html_url now merged fetchedReviews"
  have o: "openComments ?fb = filter (\<lambda>c. \<not> c_isResolved c) (filteredComments merged)"
    by (simp add: aggregate_def Let_def)
  have r: "resolvedComments ?fb = filter (\<lambda>c. c_isResolved c) (filteredComments merged)"
    by (simp add: aggregate_def Let_def)
  have "mset (filter (\<lambda>c. \<not> c_isResolved c) (filteredComments merged))
       + mset (filter (\<lambda>c. c_isResolved c) (filteredComments merged))
     = mset (filteredComments merged)"
    by (induction "filteredComments merged") (simp, simp add: mset_filter)
  moreover have "set (filter (\<lambda>c. \<not> c_isResolved c) (filteredComments merged))
       \<inter> set (filter (\<lambda>c. c_isResolved c) (filteredComments merged)) = {}"
    by auto
  ultimately show ?thesis unfolding o r by simp
qed

section \<open>Claim C5: ids within one run\<close>

text \<open>
  C5. The ids of the merged comments of one run are not always distinct. The id of an
  extracted Comment is the id of its source comment plus its ordinal, so the second
  block of a bot comment with id 100 and the first block of a bot comment with id 101
  both get the id 101. (The source computes the ids under the comment
  \<open>Generate unique IDs\<close>.) Here the run has no inline comment and two bot comments, with
  two blocks and one block.
\<close>

theorem synthesized_ids_collide:
  "map c_id
     (mergedComments [] (Inr [])
        [\<lparr>ic_id = 100, ic_login = Some ''greptile-apps[bot]'',
          ic_body = Some (''<details><summary>Prompt To Fix With AI</summary>```markdown Path: a.go Comment: x```</details>''
                          @ ''<details><summary>Prompt To Fix With AI</summary>```markdown Path: b.go Comment: y```</details>''),
          ic_html_url = ''url1'', ic_created_at = ''t1''\<rparr>,
         \<lparr>ic_id = 101, ic_login = Some ''greptile-apps[bot]'',
          ic_body = Some ''<details><summary>Prompt To Fix With AI</summary>```markdown Path: c.go Comment: z```</details>'',
          ic_html_url = ''url2'', ic_created_at = ''t2''\<rparr>])
   = [100, 101, 101]"
  by code_simp

section \<open>Claim C6: the status line\<close>

text \<open>
  C6. With two open comments, one resolved comment and resolved items included, the
  renderer pushes the open count and the resolved count as two elements of the list of
  lines, and the document joins the elements with line feeds: the resolved count stands
  on a line of its own, and the document does not contain the text
  \<open>2 open issues | 1 resolved\<close>. (The format that the repository documents shows both
  counts on one line.)
\<close>

theorem status_line_is_split_in_two:
  "statusLines
     \<lparr>prNumber = 123, prTitle = ''Title'', prUrl = ''url'',
      openComments =
        [\<lparr>c_id = 1, c_path = ''src/a.go'', c_line = Some 10, c_body = ''Fix'', c_user = ''alice'',
          c_url = ''u1'', c_createdAt = ''t1'', c_isResolved = False\<rparr>,
         \<lparr>c_id = 2, c_path = ''src/a.go'', c_line = Some 5, c_body = ''Check'', c_user = ''bob'',
          c_url = ''u2'', c_createdAt = ''t2'', c_isResolved = False\<rparr>],
      resolvedComments =
        [\<lparr>c_id = 3, c_path = ''src/b.go'', c_line = Some 1, c_body = ''Done'', c_user = ''carol'',
          c_url = ''u3'', c_createdAt = ''t3'', c_isResolved = True\<rparr>],
      reviews = [], updatedAt = ''now''\<rparr> True
   = [''**Status:** 2 open issues'', '' | 1 resolved'', '''', ''---'', '''']
   \<and> (case generateMarkdown
        \<lparr>prNumber = 123, prTitle = ''Title'', prUrl = ''url'',
         openComments =
           [\<lparr>c_id = 1, c_path = ''src/a.go'', c_line = Some 10, c_body = ''Fix'', c_user = ''alice'',
             c_url = ''u1'', c_createdAt = ''t1'', c_isResolved = False\<rparr>,
            \<lparr>c_id = 2, c_path = ''src/a.go'', c_line = Some 5, c_body = ''Check'', c_user = ''bob'',
             c_url = ''u2'', c_createdAt = ''t2'', c_isResolved = False\<rparr>],
         resolvedComments =
           [\<lparr>c_id = 3, c_path = ''src/b.go'', c_line = Some 1, c_body = ''Done'', c_user = ''carol'',
             c_url = ''u3'', c_createdAt = ''t3'', c_isResolved = True\<rparr>],
         reviews = [], updatedAt = ''now''\<rparr> True of
         Inl e \<Rightarrow> False
       | Inr document \<Rightarrow>
           str_includes document (''**Status:** 2 open issues'' @ [newline] @ '' | 1 resolved'')
           \<and> \<not> str_includes document ''2 open issues | 1 resolved'')"
  by code_simp

section \<open>Claim C7: no open comments\<close>

text \<open>
  C7. When the snapshot has no open comment, whatever its resolved comments are, the
  issues section of the document is the four fixed lines of the \<open>No Open Issues\<close>
  message, between the status lines and the resolved section. On such a run, with a
  feedback file path configured and the platform answering, the publisher ends without
  an error, and the branch afterwards has nothing at the path if a file was there, and
  is unchanged if nothing (or a directory) was there.
\<close>

theorem no_open_issues_message_and_file_deleted:
  assumes "openComments feedback = []"
  shows "issuesLines feedback =
           Inr [''## No Open Issues'', '''', ''All review comments have been resolved!'', '''']
       \<and> generateMarkdown feedback includeResolved =
           Inr (join [newline]
                  (headerLines feedback
                   @ statusLines feedback includeResolved
                   @ [''## No Open Issues'', '''', ''All review comments have been resolved!'', '''']
                   @ resolvedLines feedback includeResolved
                   @ summaryLines feedback))
       \<and> (feedbackFilePath \<noteq> [] \<and> outage p = None \<longrightarrow>
            (\<exists>logged. publishFile p feedbackFilePath (openComments feedback) markdown =
               Inr (logged,
                    if (\<exists>content. files p feedbackFilePath = Some (File content))
                    then p\<lparr>files := (files p)(feedbackFilePath := None)\<rparr>
                    else p)))"
proof -
  from assms have issues: "issuesLines feedback =
      Inr [''## No Open Issues'', '''', ''All review comments have been resolved!'', '''']"
    by (simp add: issuesLines_def noOpenIssuesLines_def)
  then have doc: "generateMarkdown feedback includeResolved =
           Inr (join [newline]
                  (headerLines feedback
                   @ statusLines feedback includeResolved
                   @ [''## No Open Issues'', '''', ''All review comments have been resolved!'', '''']
                   @ resolvedLines feedback includeResolved
                   @ summaryLines feedback))"
    by (simp add: generateMarkdown_def)
  have pub: "feedbackFilePath \<noteq> [] \<and> outage p = None \<longrightarrow>
            (\<exists>logged. publishFile p feedbackFilePath (openComments feedback) markdown =
               Inr (logged,
                    if (\<exists>content. files p feedbackFilePath = Some (File content))
                    then p\<lparr>files := (files p)(feedbackFilePath := None)\<rparr>
                    else p))"
  proof
    assume a: "feedbackFilePath \<noteq> [] \<and> outage p = None"
    with assms have del: "publishFile p feedbackFilePath (openComments feedback) markdown =
        deleteFeedbackFile p feedbackFilePath"
      by (simp add: publishFile_def)
    show "\<exists>logged. publishFile p feedbackFilePath (openComments feedback) markdown =
               Inr (logged,
                    if (\<exists>content. files p feedbackFilePath = Some (File content))
                    then p\<lparr>files := (files p)(feedbackFilePath := None)\<rparr>
                    else p)"
    proof (cases "files p feedbackFilePath")
      case None
      with a have "deleteFeedbackFile p feedbackFilePath = Inr ([], p)"
        by (simp add: deleteFeedbackFile_def getContent_def)
      with None del show ?thesis by simp
    next
      case (Some entry)
      show ?thesis
      proof (cases entry)
        case (File content)
        with Some a have "deleteFeedbackFile p feedbackFilePath =
            Inr ([Info (''Deleted feedback file '' @ feedbackFilePath)],
                 p\<lparr>files := (files p)(feedbackFilePath := None)\<rparr>)"
          by (simp add: deleteFeedbackFile_def getContent_def deleteFile_def)
        with Some File del show ?thesis by simp
      next
        case Directory
        with Some a have "deleteFeedbackFile p feedbackFilePath = Inr ([], p)"
          by (simp add: deleteFeedbackFile_def getContent_def)
        with Some Directory del show ?thesis by simp
      qed
    qed
  qed
  from issues doc pub show ?thesis by blast
qed

text \<open>
  The theorem at a snapshot with no open and one resolved comment, and a branch that
  holds the feedback file: the file is deleted, which is logged.
\<close>

theorem no_open_issues_message_and_file_deleted_witness:
  "openComments
     \<lparr>prNumber = 7, prTitle = ''Title'', prUrl = ''url'', openComments = [],
      resolvedComments =
        [\<lparr>c_id = 3, c_path = ''src/b.go'', c_line = Some 1, c_body = ''Done'', c_user = ''carol'',
          c_url = ''u3'', c_createdAt = ''t3'', c_isResolved = True\<rparr>],
      reviews = [], updatedAt = ''now''\<rparr> = []
   \<and> issuesLines
     \<lparr>prNumber = 7, prTitle = ''Title'', prUrl = ''url'', openComments = [],
      resolvedComments =
        [\<lparr>c_id = 3, c_path = ''src/b.go'', c_line = Some 1, c_body = ''Done'', c_user = ''carol'',
          c_url = ''u3'', c_createdAt = ''t3'', c_isResolved = True\<rparr>],
      reviews = [], updatedAt = ''now''\<rparr>
     = Inr [''## No Open Issues'', '''', ''All review comments have been resolved!'', '''']
   \<and> ''FEEDBACK.md'' \<noteq> []
   \<and> outage \<lparr>files = [''FEEDBACK.md'' \<mapsto> File ''old''], outage = None\<rparr> = None
   \<and> publishFile \<lparr>files = [''FEEDBACK.md'' \<mapsto> File ''old''], outage = None\<rparr>
        ''FEEDBACK.md'' [] ''new''
     = Inr ([Info ''Deleted feedback file FEEDBACK.md''], \<lparr>files = Map.empty, outage = None\<rparr>)"
proof -
  let ?fb = "\<lparr>prNumber = 7, prTitle = ''Title'', prUrl = ''url'', openComments = [],
      resolvedComments =
        [\<lparr>c_id = 3, c_path = ''src/b.go'', c_line = Some 1, c_body = ''Done'', c_user = ''carol'',
          c_url = ''u3'', c_createdAt = ''t3'', c_isResolved = True\<rparr>],
      reviews = [], updatedAt = ''now''\<rparr>"
  let ?p = "\<lparr>files = [''FEEDBACK.md'' \<mapsto> File ''old''], outage = None\<rparr>"
  have no_open: "openComments ?fb = []" by simp
  have path: "''FEEDBACK.md'' \<noteq> []" by simp
  have up: "outage ?p = None" by simp
  note inst = no_open_issues_message_and_file_deleted
    [OF no_open, where feedbackFilePath = "''FEEDBACK.md''" and p = "?p" and markdown = "''new''"
       and includeResolved = True]
  from inst have issues: "issuesLines ?fb =
      Inr [''## No Open Issues'', '''', ''All review comments have been resolved!'', '''']"
    by blast
  from inst path up obtain logged where "publishFile ?p ''FEEDBACK.md'' (openComments ?fb) ''new'' =
      Inr (logged,
           if (\<exists>content. files ?p ''FEEDBACK.md'' = Some (File content))
           then ?p\<lparr>files := (files ?p)(''FEEDBACK.md'' := None)\<rparr> else ?p)"
    by blast
  then have after: "snd (projr (publishFile ?p ''FEEDBACK.md'' [] ''new'')) =
      \<lparr>files = Map.empty, outage = None\<rparr>"
    by simp
  have logged: "publishFile ?p ''FEEDBACK.md'' [] ''new'' =
      Inr ([Info ''Deleted feedback file FEEDBACK.md''],
           snd (projr (publishFile ?p ''FEEDBACK.md'' [] ''new'')))"
    by (simp add: publishFile_def deleteFeedbackFile_def getContent_def deleteFile_def)
  from logged after have "publishFile ?p ''FEEDBACK.md'' [] ''new'' =
      Inr ([Info ''Deleted feedback file FEEDBACK.md''], \<lparr>files = Map.empty, outage = None\<rparr>)"
    by simp
  with no_open issues path up show ?thesis by blast
qed

section \<open>Claim C2: groups, their order and the order within them\<close>

text \<open>
  C2, as the code has it. For every list of open comments on which grouping ends (no
  path is the name of a property that a plain object inherits), the comments are grouped
  by path, a comment without a path under \<open>general\<close>; each group holds its comments sorted
  ascending by line, an absent line counting as 0 and equal lines keeping their order;
  and the groups are listed with the paths that are array indices first, in ascending
  numeric order, and the other paths after them in the order of their first occurrence.
  When no path is an array index, the groups are in the order of first occurrence.
\<close>

theorem groups_by_path_sorted_in_key_order:
  assumes "\<forall>c \<in> set comments. groupKey c \<notin> set objectPrototypeKeys"
  shows "\<exists>groups. groupByFile comments = Inr groups
           \<and> Object_entries groups =
               map (\<lambda>k. (k, sort_key lineOrZero (filter (\<lambda>c. groupKey c = k) comments)))
                 (keyOrder (firstSeen (map groupKey comments)))
           \<and> list_all (\<lambda>(k, members). sorted (map lineOrZero members)) (Object_entries groups)
           \<and> ((\<forall>c \<in> set comments. \<not> isArrayIndex (groupKey c)) \<longrightarrow>
                map fst (Object_entries groups) = firstSeen (map groupKey comments))"
proof -
  let ?groups = "map (\<lambda>k. (k, sort_key lineOrZero (filter (\<lambda>c. groupKey c = k) comments)))
      (firstSeen (map groupKey comments))"
  let ?entries = "map (\<lambda>k. (k, sort_key lineOrZero (filter (\<lambda>c. groupKey c = k) comments)))
      (keyOrder (firstSeen (map groupKey comments)))"
  have g: "groupByFile comments = Inr ?groups" using assms by (rule groupByFile_eq)
  have e: "Object_entries ?groups = ?entries" by (rule Object_entries_keyed)
  have s: "list_all (\<lambda>(k, members). sorted (map lineOrZero members)) ?entries"
    by (simp add: list_all_iff)
  have o: "(\<forall>c \<in> set comments. \<not> isArrayIndex (groupKey c)) \<longrightarrow>
      map fst ?entries = firstSeen (map groupKey comments)"
  proof
    assume "\<forall>c \<in> set comments. \<not> isArrayIndex (groupKey c)"
    then have "\<forall>k \<in> set (firstSeen (map groupKey comments)). \<not> isArrayIndex k"
      by (simp add: set_firstSeen)
    then have "keyOrder (firstSeen (map groupKey comments)) = firstSeen (map groupKey comments)"
      by (rule keyOrder_no_index)
    then show "map fst ?entries = firstSeen (map groupKey comments)"
      by (simp add: comp_def)
  qed
  from s have s': "list_all (\<lambda>(k, members). sorted (map lineOrZero members)) (Object_entries ?groups)"
    by (simp only: e)
  from o have o': "(\<forall>c \<in> set comments. \<not> isArrayIndex (groupKey c)) \<longrightarrow>
      map fst (Object_entries ?groups) = firstSeen (map groupKey comments)"
    by (simp only: e)
  from g e s' o' have "groupByFile comments = Inr ?groups
           \<and> Object_entries ?groups = ?entries
           \<and> list_all (\<lambda>(k, members). sorted (map lineOrZero members)) (Object_entries ?groups)
           \<and> ((\<forall>c \<in> set comments. \<not> isArrayIndex (groupKey c)) \<longrightarrow>
                map fst (Object_entries ?groups) = firstSeen (map groupKey comments))"
    by (intro conjI)
  then show ?thesis by (rule exI[where x = "?groups"])
qed

text \<open>
  The theorem at the example of the claim: comments on \<open>b.go\<close>, \<open>a.go\<close>, \<open>b.go\<close> with
  lines 5, 1, 2 give the group of \<open>b.go\<close> (line 2, then line 5) and then the group of
  \<open>a.go\<close>.
\<close>

theorem groups_by_path_sorted_in_key_order_witness:
  "list_all (\<lambda>c. groupKey c \<notin> set objectPrototypeKeys)
     [\<lparr>c_id = 1, c_path = ''b.go'', c_line = Some 5, c_body = ''one'', c_user = ''alice'',
       c_url = ''u1'', c_createdAt = ''t1'', c_isResolved = False\<rparr>,
      \<lparr>c_id = 2, c_path = ''a.go'', c_line = Some 1, c_body = ''two'', c_user = ''bob'',
       c_url = ''u2'', c_createdAt = ''t2'', c_isResolved = False\<rparr>,
      \<lparr>c_id = 3, c_path = ''b.go'', c_line = Some 2, c_body = ''three'', c_user = ''carol'',
       c_url = ''u3'', c_createdAt = ''t3'', c_isResolved = False\<rparr>]
   \<and> (\<exists>groups.
        groupByFile
          [\<lparr>c_id = 1, c_path = ''b.go'', c_line = Some 5, c_body = ''one'', c_user = ''alice'',
            c_url = ''u1'', c_createdAt = ''t1'', c_isResolved = False\<rparr>,
           \<lparr>c_id = 2, c_path = ''a.go'', c_line = Some 1, c_body = ''two'', c_user = ''bob'',
            c_url = ''u2'', c_createdAt = ''t2'', c_isResolved = False\<rparr>,
           \<lparr>c_id = 3, c_path = ''b.go'', c_line = Some 2, c_body = ''three'', c_user = ''carol'',
            c_url = ''u3'', c_createdAt = ''t3'', c_isResolved = False\<rparr>] = Inr groups
        \<and> map fst (Object_entries groups) = [''b.go'', ''a.go'']
        \<and> Object_entries groups =
            [(''b.go'',
              [\<lparr>c_id = 3, c_path = ''b.go'', c_line = Some 2, c_body = ''three'', c_user = ''carol'',
                c_url = ''u3'', c_createdAt = ''t3'', c_isResolved = False\<rparr>,
               \<lparr>c_id = 1, c_path = ''b.go'', c_line = Some 5, c_body = ''one'', c_user = ''alice'',
                c_url = ''u1'', c_createdAt = ''t1'', c_isResolved = False\<rparr>]),
             (''a.go'',
              [\<lparr>c_id = 2, c_path = ''a.go'', c_line = Some 1, c_body = ''two'', c_user = ''bob'',
                c_url = ''u2'', c_createdAt = ''t2'', c_isResolved = False\<rparr>])])"
proof -
  let ?c1 = "\<lparr>c_id = 1, c_path = ''b.go'', c_line = Some 5, c_body = ''one'', c_user = ''alice'',
       c_url = ''u1'', c_createdAt = ''t1'', c_isResolved = False\<rparr>"
  let ?c2 = "\<lparr>c_id = 2, c_path = ''a.go'', c_line = Some 1, c_body = ''two'', c_user = ''bob'',
       c_url = ''u2'', c_createdAt = ''t2'', c_isResolved = False\<rparr>"
  let ?c3 = "\<lparr>c_id = 3, c_path = ''b.go'', c_line = Some 2, c_body = ''three'', c_user = ''carol'',
       c_url = ''u3'', c_createdAt = ''t3'', c_isResolved = False\<rparr>"
  let ?cs = "[?c1, ?c2, ?c3]"
  have own: "list_all (\<lambda>c. groupKey c \<notin> set objectPrototypeKeys) ?cs" by code_simp
  then have h1: "\<forall>c \<in> set ?cs. groupKey c \<notin> set objectPrototypeKeys"
    by (simp only: list_all_iff)
  have "list_all (\<lambda>c. \<not> isArrayIndex (groupKey c)) ?cs" by code_simp
  then have h2: "\<forall>c \<in> set ?cs. \<not> isArrayIndex (groupKey c)" by (simp only: list_all_iff)
  from groups_by_path_sorted_in_key_order[OF h1] obtain groups
    where all: "groupByFile ?cs = Inr groups
      \<and> Object_entries groups =
               map (\<lambda>k. (k, sort_key lineOrZero (filter (\<lambda>c. groupKey c = k) ?cs)))
                 (keyOrder (firstSeen (map groupKey ?cs)))
      \<and> list_all (\<lambda>(k, members). sorted (map lineOrZero members)) (Object_entries groups)
      \<and> ((\<forall>c \<in> set ?cs. \<not> isArrayIndex (groupKey c)) \<longrightarrow>
                map fst (Object_entries groups) = firstSeen (map groupKey ?cs))" ..
  from all have g: "groupByFile ?cs = Inr groups" by (rule conjunct1)
  from all have e: "Object_entries groups =
               map (\<lambda>k. (k, sort_key lineOrZero (filter (\<lambda>c. groupKey c = k) ?cs)))
                 (keyOrder (firstSeen (map groupKey ?cs)))"
    by (elim conjE)
  from all have "(\<forall>c \<in> set ?cs. \<not> isArrayIndex (groupKey c)) \<longrightarrow>
                map fst (Object_entries groups) = firstSeen (map groupKey ?cs)"
    by (elim conjE)
  from this h2 have o: "map fst (Object_entries groups) = firstSeen (map groupKey ?cs)"
    by (rule mp)
  have fs: "firstSeen (map groupKey ?cs) = [''b.go'', ''a.go'']" by code_simp
  from o have o': "map fst (Object_entries groups) = [''b.go'', ''a.go'']" unfolding fs .
  have ev: "map (\<lambda>k. (k, sort_key lineOrZero (filter (\<lambda>c. groupKey c = k) ?cs)))
                 (keyOrder (firstSeen (map groupKey ?cs))) =
      [(''b.go'', [?c3, ?c1]), (''a.go'', [?c2])]"
    by code_simp
  from e have e': "Object_entries groups = [(''b.go'', [?c3, ?c1]), (''a.go'', [?c2])]"
    unfolding ev .
  from g o' e' have "groupByFile ?cs = Inr groups
        \<and> map fst (Object_entries groups) = [''b.go'', ''a.go'']
        \<and> Object_entries groups = [(''b.go'', [?c3, ?c1]), (''a.go'', [?c2])]"
    by (intro conjI)
  then have "\<exists>groups. groupByFile ?cs = Inr groups
        \<and> map fst (Object_entries groups) = [''b.go'', ''a.go'']
        \<and> Object_entries groups = [(''b.go'', [?c3, ?c1]), (''a.go'', [?c2])]"
    by (rule exI[where x = groups])
  with own show ?thesis by (rule conjI)
qed

text \<open>
  The claim as it was stated, that the groups are always in the order of first
  occurrence, fails on a file whose name is a number: comments on \<open>b.go\<close> and then on
  the file \<open>7\<close> are listed with the group of \<open>7\<close> first.
\<close>

theorem group_order_counterexample:
  "\<exists>groups.
     groupByFile
       [\<lparr>c_id = 1, c_path = ''b.go'', c_line = Some 5, c_body = ''one'', c_user = ''alice'',
         c_url = ''u1'', c_createdAt = ''t1'', c_isResolved = False\<rparr>,
        \<lparr>c_id = 2, c_path = ''7'', c_line = Some 1, c_body = ''two'', c_user = ''bob'',
         c_url = ''u2'', c_createdAt = ''t2'', c_isResolved = False\<rparr>] = Inr groups
     \<and> map fst (Object_entries groups) = [''7'', ''b.go'']
     \<and> firstSeen [''b.go'', ''7''] = [''b.go'', ''7'']
     \<and> map fst (Object_entries groups) \<noteq> firstSeen [''b.go'', ''7'']"
proof -
  let ?cs = "[\<lparr>c_id = 1, c_path = ''b.go'', c_line = Some 5, c_body = ''one'', c_user = ''alice'',
         c_url = ''u1'', c_createdAt = ''t1'', c_isResolved = False\<rparr>,
        \<lparr>c_id = 2, c_path = ''7'', c_line = Some 1, c_body = ''two'', c_user = ''bob'',
         c_url = ''u2'', c_createdAt = ''t2'', c_isResolved = False\<rparr>]"
  let ?groups = "[(''b.go'', [\<lparr>c_id = 1, c_path = ''b.go'', c_line = Some 5, c_body = ''one'', c_user = ''alice'',
         c_url = ''u1'', c_createdAt = ''t1'', c_isResolved = False\<rparr>]),
        (''7'', [\<lparr>c_id = 2, c_path = ''7'', c_line = Some 1, c_body = ''two'', c_user = ''bob'',
         c_url = ''u2'', c_createdAt = ''t2'', c_isResolved = False\<rparr>])]"
  have g: "groupByFile ?cs = Inr ?groups" by code_simp
  have e: "map fst (Object_entries ?groups) = [''7'', ''b.go'']" by code_simp
  have f: "firstSeen [''b.go'', ''7''] = [''b.go'', ''7'']" by code_simp
  have n: "map fst (Object_entries ?groups) \<noteq> firstSeen [''b.go'', ''7'']"
    unfolding e f by simp
  from g e f n have "groupByFile ?cs = Inr ?groups
     \<and> map fst (Object_entries ?groups) = [''7'', ''b.go'']
     \<and> firstSeen [''b.go'', ''7''] = [''b.go'', ''7'']
     \<and> map fst (Object_entries ?groups) \<noteq> firstSeen [''b.go'', ''7'']"
    by (intro conjI)
  then show ?thesis by (rule exI[where x = "?groups"])
qed

text \<open>
  Grouping does not end on a path that names an inherited property: the lookup finds
  the inherited value, no group is created, and the call of \<open>push\<close> on that value throws.
\<close>

lemma grouping_throws_on_inherited_name:
  "groupByFile
     [\<lparr>c_id = 1, c_path = ''constructor'', c_line = Some 5, c_body = ''one'', c_user = ''alice'',
       c_url = ''u1'', c_createdAt = ''t1'', c_isResolved = False\<rparr>]
   = Inl (TypeError ''groups[path].push is not a function'')"
  by code_simp

end
